theory Spec2Isabelle
  imports Main "HOL-Library.AList" "HOL-Library.Char_ord" "HOL-Library.List_Lexorder"
begin

section \<open>Python strings\<close>

text \<open>
  A Python \<open>str\<close> is a sequence of code points. It is modelled as a \<open>string\<close>, each
  \<open>char\<close> standing for one code point below 256. The order on strings is the lexicographic
  order by code point (\<open>List_Lexorder\<close> over \<open>Char_ord\<close>), which is how Python compares
  \<open>str\<close> values, so \<open>sort\<close> is Python's \<open>sorted\<close>.
\<close>

definition is_space :: "char \<Rightarrow> bool" where
  \<comment> \<open>the code points below 256 that \<open>str.strip()\<close> removes:
      U+0009..U+000D, U+001C..U+001F, U+0020, U+0085, U+00A0\<close>
  "is_space c =
     (let n = (of_char c :: nat)
      in (9 \<le> n \<and> n \<le> 13) \<or> (28 \<le> n \<and> n \<le> 32) \<or> n = 133 \<or> n = 160)"

definition str_strip :: "string \<Rightarrow> string" where
  \<comment> \<open>\<open>s.strip()\<close>\<close>
  "str_strip s = rev (dropWhile is_space (rev (dropWhile is_space s)))"

definition lower_char :: "char \<Rightarrow> char" where
  \<comment> \<open>the code points below 256 that \<open>str.lower()\<close> changes:
      A..Z, U+00C0..U+00D6 and U+00D8..U+00DE, each moved up by 32\<close>
  "lower_char c =
     (let n = (of_char c :: nat)
      in if (65 \<le> n \<and> n \<le> 90) \<or> (192 \<le> n \<and> n \<le> 214) \<or> (216 \<le> n \<and> n \<le> 222)
         then char_of (n + 32) else c)"

definition str_lower :: "string \<Rightarrow> string" where
  \<comment> \<open>\<open>s.lower()\<close>\<close>
  "str_lower s = map lower_char s"

fun str_split :: "char \<Rightarrow> string \<Rightarrow> string list" where
  \<comment> \<open>\<open>s.split(c)\<close> for a one-character separator: never empty, \<open>''.split(c) == ['']\<close>\<close>
  "str_split c [] = [[]]"
| "str_split c (x # xs) =
     (if x = c then [] # str_split c xs
      else (x # hd (str_split c xs)) # tl (str_split c xs))"

fun str_join :: "string \<Rightarrow> string list \<Rightarrow> string" where
  \<comment> \<open>\<open>sep.join(xs)\<close>\<close>
  "str_join sep [] = []"
| "str_join sep [x] = x"
| "str_join sep (x # y # ys) = x @ sep @ str_join sep (y # ys)"

definition startswith :: "string \<Rightarrow> string \<Rightarrow> bool" where
  \<comment> \<open>\<open>s.startswith(p)\<close>\<close>
  "startswith s p = (take (length p) s = p)"

fun str_contains :: "string \<Rightarrow> string \<Rightarrow> bool" where
  \<comment> \<open>\<open>q in s\<close>: \<open>q\<close> occurs in \<open>s\<close> as a contiguous substring\<close>
  "str_contains q [] = (q = [])"
| "str_contains q (c # cs) = (startswith (c # cs) q \<or> str_contains q cs)"

section \<open>The file system\<close>

text \<open>
  The file system is a tree from the root \<open>/\<close>: a regular file holds its decoded text, a
  directory lists its entries by name, in the order in which \<open>os.listdir\<close> and \<open>os.walk\<close>
  report them. The model is the POSIX flavour of \<open>os\<close> and \<open>os.path\<close> (\<open>os.sep\<close> is \<open>/\<close>),
  without symbolic links, permissions or undecodable files. A path that has been resolved
  is the list of names from the root down.
\<close>

datatype fsnode = RegFile string | Directory "(string \<times> fsnode) list"

type_synonym path = "string list"

datatype py_error =
    FileNotFoundError | NotADirectoryError | IsADirectoryError
  | KeyError | AttributeError | TypeError

fun lookup :: "fsnode \<Rightarrow> path \<Rightarrow> fsnode option" where
  "lookup n [] = Some n"
| "lookup (RegFile _) (c # cs) = None"
| "lookup (Directory es) (c # cs) =
     (case map_of es c of None \<Rightarrow> None | Some n \<Rightarrow> lookup n cs)"

definition isfile :: "fsnode \<Rightarrow> path \<Rightarrow> bool" where
  \<comment> \<open>\<open>os.path.isfile\<close>\<close>
  "isfile fs p = (case lookup fs p of Some (RegFile _) \<Rightarrow> True | _ \<Rightarrow> False)"

definition isdir :: "fsnode \<Rightarrow> path \<Rightarrow> bool" where
  \<comment> \<open>\<open>os.path.isdir\<close>\<close>
  "isdir fs p = (case lookup fs p of Some (Directory _) \<Rightarrow> True | _ \<Rightarrow> False)"

fun universal_newlines :: "string \<Rightarrow> string" where
  \<comment> \<open>reading in text mode with the default \<open>newline=None\<close>: \<open>\r\n\<close> and \<open>\r\<close> become \<open>\n\<close>\<close>
  "universal_newlines [] = []"
| "universal_newlines [c] = [if c = CHR 0x0D then CHR 0x0A else c]"
| "universal_newlines (c # d # ds) =
     (if c = CHR 0x0D \<and> d = CHR 0x0A then CHR 0x0A # universal_newlines ds
      else if c = CHR 0x0D then CHR 0x0A # universal_newlines (d # ds)
      else c # universal_newlines (d # ds))"

definition read_text :: "fsnode \<Rightarrow> path \<Rightarrow> string" where
  \<comment> \<open>\<open>open(p, 'r', encoding='utf-8').read()\<close> of an existing regular file\<close>
  "read_text fs p =
     (case lookup fs p of Some (RegFile content) \<Rightarrow> universal_newlines content | _ \<Rightarrow> [])"

fun write_text :: "fsnode \<Rightarrow> path \<Rightarrow> string \<Rightarrow> py_error + fsnode" where
  \<comment> \<open>\<open>open(p, 'w', encoding='utf-8').write(s)\<close>: the file is created in an existing
      directory or truncated; with \<open>os.linesep\<close> being \<open>\n\<close> the text is stored as it is\<close>
  "write_text (RegFile _) [] s = Inr (RegFile s)"
| "write_text (Directory _) [] s = Inl IsADirectoryError"
| "write_text (RegFile _) (c # cs) s = Inl NotADirectoryError"
| "write_text (Directory es) (c # cs) s =
     (case map_of es c of
        None \<Rightarrow>
          (if cs = [] then Inr (Directory (es @ [(c, RegFile s)])) else Inl FileNotFoundError)
      | Some n \<Rightarrow>
          (case write_text n cs s of
             Inl e \<Rightarrow> Inl e
           | Inr n' \<Rightarrow> Inr (Directory (AList.update c n' es))))"

section \<open>The tag store (Modules/utils.py)\<close>

definition load_tags :: "fsnode \<Rightarrow> path \<Rightarrow> string list" where
  "load_tags fs tag_file =
     (if isfile fs tag_file
      then [str_strip t. t \<leftarrow> str_split CHR '','' (read_text fs tag_file), str_strip t \<noteq> []]
      else [])"

definition split_tags :: "string \<Rightarrow> string list" where
  \<comment> \<open>\<open>[t.strip() for t in s.split(',') if t.strip()]\<close>, which \<open>load_tags\<close> applies to the
      file and \<open>import_tags\<close> to the \<open>Tags\<close> field of a row\<close>
  "split_tags s = [str_strip t. t \<leftarrow> str_split CHR '','' s, str_strip t \<noteq> []]"

definition save_tags :: "fsnode \<Rightarrow> path \<Rightarrow> string list \<Rightarrow> py_error + fsnode" where
  "save_tags fs tag_file tags = write_text fs tag_file (str_join '', '' (sort (remdups tags)))"

definition clean_tag :: "string \<Rightarrow> bool" where
  \<comment> \<open>non-empty, no leading or trailing whitespace, no comma\<close>
  "clean_tag t =
     (t \<noteq> [] \<and> \<not> is_space (hd t) \<and> \<not> is_space (last t) \<and> CHR '','' \<notin> set t)"

section \<open>Directory listings and walks\<close>

definition listdir :: "fsnode \<Rightarrow> path \<Rightarrow> py_error + string list" where
  \<comment> \<open>\<open>os.listdir\<close>\<close>
  "listdir fs p =
     (case lookup fs p of
        None \<Rightarrow> Inl FileNotFoundError
      | Some (RegFile _) \<Rightarrow> Inl NotADirectoryError
      | Some (Directory es) \<Rightarrow> Inr (map fst es))"

fun walk :: "path \<Rightarrow> fsnode \<Rightarrow> path list" where
  \<comment> \<open>the directories below a node, top-down, each as its path relative to the node\<close>
  "walk rel (RegFile _) = []"
| "walk rel (Directory es) = rel # concat (map (\<lambda>e. walk (rel @ [fst e]) (snd e)) es)"

definition os_walk :: "fsnode \<Rightarrow> path \<Rightarrow> path list" where
  \<comment> \<open>the \<open>dirpath\<close>s of \<open>os.walk(root)\<close>, relative to \<open>root\<close>; nothing when \<open>root\<close> is no
      directory (\<open>os.walk\<close> ignores the error)\<close>
  "os_walk fs root = (case lookup fs root of None \<Rightarrow> [] | Some n \<Rightarrow> walk [] n)"

definition relpath :: "path \<Rightarrow> string" where
  \<comment> \<open>\<open>os.path.relpath(dirpath, root)\<close> for the directory \<open>rel\<close> below \<open>root\<close>\<close>
  "relpath rel = (if rel = [] then ''.'' else str_join ''/'' rel)"

definition path_join :: "string \<Rightarrow> string \<Rightarrow> string" where
  \<comment> \<open>\<open>os.path.join(a, b)\<close> as a string\<close>
  "path_join a b =
     (if startswith b ''/'' then b
      else if a = [] \<or> last a = CHR ''/'' then a @ b
      else a @ ''/'' @ b)"

fun resolve_step :: "fsnode \<Rightarrow> path option \<Rightarrow> string \<Rightarrow> path option" where
  "resolve_step fs None c = None"
| "resolve_step fs (Some cur) c =
     (if \<not> isdir fs cur then None
      else if c = [] \<or> c = ''.'' then Some cur
      else if c = ''..'' then Some (butlast cur)
      else if lookup fs (cur @ [c]) = None then None
      else Some (cur @ [c]))"

definition resolve :: "fsnode \<Rightarrow> path \<Rightarrow> string \<Rightarrow> path option" where
  \<comment> \<open>what \<open>os.path.join(base, rel)\<close> names, when it names something: an absolute \<open>rel\<close>
      starts from \<open>/\<close>, and every component is looked up in a directory\<close>
  "resolve fs base rel =
     foldl (resolve_step fs) (Some (if startswith rel ''/'' then [] else base))
       (str_split CHR ''/'' rel)"

definition valid_name :: "string \<Rightarrow> bool" where
  "valid_name n = (n \<noteq> [] \<and> CHR ''/'' \<notin> set n \<and> n \<noteq> ''.'' \<and> n \<noteq> ''..'')"

fun wf_fs :: "fsnode \<Rightarrow> bool" where
  \<comment> \<open>what every real directory satisfies: entry names are distinct file names\<close>
  "wf_fs (RegFile _) = True"
| "wf_fs (Directory es) =
     (distinct (map fst es) \<and> list_all (\<lambda>e. valid_name (fst e) \<and> wf_fs (snd e)) es)"

section \<open>The browser (Modules/tag\_browser.py)\<close>

text \<open>
  The window's state: the attributes the methods read and write, and the contents of the
  four list widgets. An item of the topic and chapter lists is its text with the relative
  path stored as its data. \<open>tag_cache\<close> is a \<open>dict\<close>, kept as an association list in
  insertion order; \<open>AList.update\<close> is the assignment \<open>d[k] = v\<close>. \<open>all_topics\<close> is only
  ever read through \<open>getattr(self, 'all_topics', [])\<close>, so before its first assignment it
  is \<open>[]\<close>. A publisher, topic or chapter name comes from \<open>os.listdir\<close> and is one path
  component.
\<close>

record tag_browser =
  root_directory :: path
  tag_cache :: "(string \<times> string list) list"
  all_publishers :: "string list"
  all_tags :: "string list"
  all_topics :: "(string \<times> string) list"
  publisher_list :: "string list"
  topic_list :: "(string \<times> string) list"
  chapter_list :: "(string \<times> string) list"
  tag_list :: "string list"

definition prefixes :: "string list" where
  "prefixes = [''$_'', ''$__'', ''#_'', ''#__'', ''__'']"

definition load_publishers :: "fsnode \<Rightarrow> tag_browser \<Rightarrow> py_error + tag_browser" where
  "load_publishers fs s =
     (case listdir fs (root_directory s) of
        Inl e \<Rightarrow> Inl e
      | Inr names \<Rightarrow>
          let pubs = sort [name \<leftarrow> names.
                             isdir fs (root_directory s @ [name]) \<and> list_ex (startswith name) prefixes]
          in Inr (s\<lparr>all_publishers := pubs, publisher_list := pubs\<rparr>))"

fun scan_tags :: "fsnode \<Rightarrow> path \<Rightarrow> path list \<Rightarrow> (string \<times> string list) list
    \<Rightarrow> (string \<times> string list) list" where
  \<comment> \<open>the loop of \<open>load_all_tags\<close> over the walked directories\<close>
  "scan_tags fs root [] cache = cache"
| "scan_tags fs root (rel # rels) cache =
     (let relative = relpath rel;
          tags = load_tags fs (root @ rel @ [''tag.txt''])
      in scan_tags fs root rels (if tags \<noteq> [] then AList.update relative tags cache else cache))"

definition load_all_tags :: "fsnode \<Rightarrow> tag_browser \<Rightarrow> tag_browser" where
  "load_all_tags fs s =
     (let cache = scan_tags fs (root_directory s) (os_walk fs (root_directory s)) [];
          tags = sort (remdups (concat (map snd cache)))
      in s\<lparr>tag_cache := cache, all_tags := tags, tag_list := tags\<rparr>)"

definition new_browser :: "path \<Rightarrow> tag_browser" where
  \<comment> \<open>the window before the first load: empty cache, empty widgets\<close>
  "new_browser root =
     \<lparr>root_directory = root, tag_cache = [], all_publishers = [], all_tags = [],
      all_topics = [], publisher_list = [], topic_list = [], chapter_list = [],
      tag_list = []\<rparr>"

definition TagBrowser_init :: "fsnode \<Rightarrow> path \<Rightarrow> py_error + tag_browser" where
  \<comment> \<open>\<open>TagBrowser.__init__\<close>: empty cache and widgets, then the two loads\<close>
  "TagBrowser_init fs root =
     (case load_publishers fs (new_browser root) of
        Inl e \<Rightarrow> Inl e
      | Inr s \<Rightarrow> Inr (load_all_tags fs s))"

definition load_topics :: "fsnode \<Rightarrow> tag_browser \<Rightarrow> string \<Rightarrow> py_error + tag_browser" where
  "load_topics fs s publisher =
     (let publisher_path = root_directory s @ [publisher]
      in case listdir fs publisher_path of
           Inl e \<Rightarrow> Inl e
         | Inr names \<Rightarrow>
             let topics = sort [topic \<leftarrow> names. isdir fs (publisher_path @ [topic])];
                 items = map (\<lambda>topic. (topic, path_join publisher topic)) topics
             in Inr (s\<lparr>all_topics := items, topic_list := items, chapter_list := []\<rparr>))"

definition reset_all_lists :: "fsnode \<Rightarrow> tag_browser \<Rightarrow> py_error + tag_browser" where
  "reset_all_lists fs s =
     (case load_publishers fs s of
        Inl e \<Rightarrow> Inl e
      | Inr s' \<Rightarrow> Inr ((load_all_tags fs s')\<lparr>topic_list := [], chapter_list := []\<rparr>))"

definition matches :: "string \<Rightarrow> string \<times> string list \<Rightarrow> bool" where
  \<comment> \<open>the test of \<open>global_search\<close> on a cache entry\<close>
  "matches query entry =
     (let parts = str_split CHR ''/'' (fst entry);
          last_folder = str_lower (last parts)
      in str_contains query last_folder
         \<or> list_ex (\<lambda>tag. str_contains query (str_lower tag)) (snd entry))"

fun search_cache :: "string \<Rightarrow> (string \<times> string list) list
    \<Rightarrow> (string \<times> string) list \<times> (string \<times> string) list
    \<Rightarrow> (string \<times> string) list \<times> (string \<times> string) list" where
  \<comment> \<open>the loop of \<open>global_search\<close> over \<open>tag_cache.items()\<close>\<close>
  "search_cache query [] acc = acc"
| "search_cache query ((relative_path, tags) # rest) (matched_topics, matched_chapters) =
     (let parts = str_split CHR ''/'' relative_path
      in search_cache query rest
           (if matches query (relative_path, tags)
            then if length parts = 2
                 then (matched_topics @ [(parts ! 1, relative_path)], matched_chapters)
                 else if length parts = 3
                 then (matched_topics,
                       matched_chapters @ [(parts ! 2 @ '' ('' @ parts ! 1 @ '')'', relative_path)])
                 else (matched_topics, matched_chapters)
            else (matched_topics, matched_chapters)))"

definition global_search :: "fsnode \<Rightarrow> tag_browser \<Rightarrow> string \<Rightarrow> py_error + tag_browser" where
  "global_search fs s text =
     (let query = str_lower (str_strip text)
      in if query = [] then reset_all_lists fs s
         else
           let matched_publishers = [p \<leftarrow> all_publishers s. str_contains query (str_lower p)];
               matched_tags = [tag \<leftarrow> all_tags s. str_contains query (str_lower tag)];
               found = search_cache query (tag_cache s) ([], [])
           in Inr (s\<lparr>publisher_list := matched_publishers, topic_list := fst found,
                      chapter_list := snd found, tag_list := matched_tags\<rparr>))"

definition topic_items :: "string \<Rightarrow> (string \<times> string list) list \<Rightarrow> (string \<times> string) list" where
  \<comment> \<open>the items that the loop of \<open>global_search\<close> appends to \<open>matched_topics\<close>\<close>
  "topic_items query cache =
     [(str_split CHR ''/'' (fst e) ! 1, fst e).
        e \<leftarrow> cache, matches query e \<and> length (str_split CHR ''/'' (fst e)) = 2]"

definition chapter_items :: "string \<Rightarrow> (string \<times> string list) list \<Rightarrow> (string \<times> string) list" where
  \<comment> \<open>the items that the loop appends to \<open>matched_chapters\<close>\<close>
  "chapter_items query cache =
     [(str_split CHR ''/'' (fst e) ! 2 @ '' ('' @ str_split CHR ''/'' (fst e) ! 1 @ '')'', fst e).
        e \<leftarrow> cache, matches query e \<and> length (str_split CHR ''/'' (fst e)) = 3]"

subsection \<open>Import\<close>

text \<open>
  \<open>import_tags\<close> reads the rows of the chosen file with \<open>csv.DictReader\<close>. A row is a
  \<open>dict\<close> from the header's column names to the fields of the line; a line with fewer
  fields than the header has \<open>None\<close> for the columns it lacks, and a column that the header
  lacks is no key of the row. The rows are the input of the model.

  \<open>list(set(xs))\<close> lists the distinct elements of \<open>xs\<close> in an order that Python does not
  fix; the order is the parameter \<open>set_order\<close>.
\<close>

type_synonym row = "(string \<times> string option) list"

definition import_row :: "(string list \<Rightarrow> string list) \<Rightarrow> bool \<Rightarrow> fsnode \<Rightarrow> tag_browser \<Rightarrow> row
    \<Rightarrow> py_error + fsnode \<times> tag_browser" where
  \<comment> \<open>the body of the loop of \<open>import_tags\<close>\<close>
  "import_row set_order overwrite fs s row =
     (case map_of row ''Path'' of
        None \<Rightarrow> Inl KeyError
      | Some relative \<Rightarrow>
     (case map_of row ''Tags'' of
        None \<Rightarrow> Inl KeyError
      | Some None \<Rightarrow> Inl AttributeError
      | Some (Some field) \<Rightarrow>
          let new_tags = split_tags field
          in (case relative of
                None \<Rightarrow> Inl TypeError
              | Some relative \<Rightarrow>
                  (case resolve fs (root_directory s) relative of
                     None \<Rightarrow> Inr (fs, s)
                   | Some full_path \<Rightarrow>
                       if isdir fs full_path
                       then
                         let tag_file = full_path @ [''tag.txt'']
                         in if overwrite
                            then
                              (case save_tags fs tag_file new_tags of
                                 Inl e \<Rightarrow> Inl e
                               | Inr fs' \<Rightarrow>
                                   Inr (fs', s\<lparr>tag_cache :=
                                               AList.update relative new_tags (tag_cache s)\<rparr>))
                            else
                              let existing = load_tags fs tag_file;
                                  combined = set_order (existing @ new_tags)
                              in (case save_tags fs tag_file combined of
                                    Inl e \<Rightarrow> Inl e
                                  | Inr fs' \<Rightarrow>
                                      Inr (fs', s\<lparr>tag_cache :=
                                                  AList.update relative combined (tag_cache s)\<rparr>))
                       else Inr (fs, s)))))"


fun import_rows :: "(string list \<Rightarrow> string list) \<Rightarrow> bool \<Rightarrow> fsnode \<Rightarrow> tag_browser \<Rightarrow> row list
    \<Rightarrow> py_error option \<times> fsnode \<times> tag_browser" where
  \<comment> \<open>the loop: an exception leaves it with what the rows before have done\<close>
  "import_rows set_order overwrite fs s [] = (None, fs, s)"
| "import_rows set_order overwrite fs s (row # rows) =
     (case import_row set_order overwrite fs s row of
        Inl e \<Rightarrow> (Some e, fs, s)
      | Inr (fs', s') \<Rightarrow> import_rows set_order overwrite fs' s' rows)"

definition import_tags :: "(string list \<Rightarrow> string list) \<Rightarrow> fsnode \<Rightarrow> tag_browser \<Rightarrow> row list \<Rightarrow> bool
    \<Rightarrow> py_error option \<times> fsnode \<times> tag_browser" where
  \<comment> \<open>the exception that ended the import, if one did, with the file system and the
      window as they are then; \<open>load_all_tags\<close> runs only after the last row\<close>
  "import_tags set_order fs s rows overwrite =
     (case import_rows set_order overwrite fs s rows of
        (Some e, fs', s') \<Rightarrow> (Some e, fs', s')
      | (None, fs', s') \<Rightarrow> (None, fs', load_all_tags fs' s'))"

subsection \<open>Statistics\<close>

record statistics =
  Total_publishers :: nat
  Total_topics :: nat
  Total_chapters :: nat
  Total_unique_tags :: nat
  Topics_per_publisher :: "(string \<times> nat) list"
  Chapters_per_topic :: "(string \<times> nat) list"
  Tag_usage_count :: "(string \<times> nat) list"

fun count_topics :: "fsnode \<Rightarrow> path \<Rightarrow> string list \<Rightarrow> (string \<times> nat) list
    \<Rightarrow> py_error + (string \<times> nat) list" where
  \<comment> \<open>the loop over \<open>all_publishers\<close> that fills \<open>publisher_topic_count\<close>\<close>
  "count_topics fs root [] publisher_topic_count = Inr publisher_topic_count"
| "count_topics fs root (pub # pubs) publisher_topic_count =
     (let pub_path = root @ [pub]
      in case listdir fs pub_path of
           Inl e \<Rightarrow> Inl e
         | Inr names \<Rightarrow>
             let topics = [t \<leftarrow> names. isdir fs (pub_path @ [t])]
             in count_topics fs root pubs
                  (AList.update pub (length topics) publisher_topic_count))"

fun count_chapters :: "fsnode \<Rightarrow> path \<Rightarrow> string \<Rightarrow> string list \<Rightarrow> (string \<times> nat) list \<times> nat
    \<Rightarrow> py_error + (string \<times> nat) list \<times> nat" where
  \<comment> \<open>the inner loop over the entries of a publisher\<close>
  "count_chapters fs root pub [] acc = Inr acc"
| "count_chapters fs root pub (topic # topics) (topic_chapter_count, total_chapters) =
     (let topic_path = root @ [pub, topic]
      in if isdir fs topic_path
         then
           (case listdir fs topic_path of
              Inl e \<Rightarrow> Inl e
            | Inr names \<Rightarrow>
                let chapters = [c \<leftarrow> names. isdir fs (topic_path @ [c])]
                in count_chapters fs root pub topics
                     (AList.update (pub @ ''/'' @ topic) (length chapters) topic_chapter_count,
                      total_chapters + length chapters))
         else count_chapters fs root pub topics (topic_chapter_count, total_chapters))"

fun count_all_chapters :: "fsnode \<Rightarrow> path \<Rightarrow> (string \<times> nat) list \<Rightarrow> (string \<times> nat) list \<times> nat
    \<Rightarrow> py_error + (string \<times> nat) list \<times> nat" where
  \<comment> \<open>the outer loop over \<open>publisher_topic_count.items()\<close>\<close>
  "count_all_chapters fs root [] acc = Inr acc"
| "count_all_chapters fs root ((pub, topic_count) # rest) acc =
     (case listdir fs (root @ [pub]) of
        Inl e \<Rightarrow> Inl e
      | Inr names \<Rightarrow>
          (case count_chapters fs root pub names acc of
             Inl e \<Rightarrow> Inl e
           | Inr acc' \<Rightarrow> count_all_chapters fs root rest acc'))"

definition tag_usage :: "(string \<times> string list) list \<Rightarrow> string \<Rightarrow> nat" where
  \<comment> \<open>\<open>sum(1 for tags in self.tag_cache.values() if tag in tags)\<close>\<close>
  "tag_usage cache tag = length [tags \<leftarrow> map snd cache. tag \<in> set tags]"

definition compute_statistics :: "fsnode \<Rightarrow> tag_browser \<Rightarrow> py_error + statistics" where
  "compute_statistics fs s =
     (case count_topics fs (root_directory s) (all_publishers s) [] of
        Inl e \<Rightarrow> Inl e
      | Inr publisher_topic_count \<Rightarrow>
     (case count_all_chapters fs (root_directory s) publisher_topic_count ([], 0) of
        Inl e \<Rightarrow> Inl e
      | Inr (topic_chapter_count, total_chapters) \<Rightarrow>
          Inr \<lparr>Total_publishers = length (all_publishers s),
               Total_topics = sum_list (map snd publisher_topic_count),
               Total_chapters = total_chapters,
               Total_unique_tags = length (all_tags s),
               Topics_per_publisher = publisher_topic_count,
               Chapters_per_topic = topic_chapter_count,
               Tag_usage_count =
                 foldl (\<lambda>d tag. AList.update tag (tag_usage (tag_cache s) tag) d) []
                   (all_tags s)\<rparr>))"

subsection \<open>The counts of a library\<close>

definition subdirs :: "fsnode \<Rightarrow> path \<Rightarrow> string list" where
  \<comment> \<open>the names of the directories in a directory, in listing order\<close>
  "subdirs fs p =
     (case listdir fs p of Inl e \<Rightarrow> [] | Inr names \<Rightarrow> [c \<leftarrow> names. isdir fs (p @ [c])])"

definition publisher_folders :: "fsnode \<Rightarrow> path \<Rightarrow> string list" where
  \<comment> \<open>the recognized publisher folders of the root, sorted\<close>
  "publisher_folders fs root = sort [name \<leftarrow> subdirs fs root. list_ex (startswith name) prefixes]"

definition topic_counts :: "fsnode \<Rightarrow> path \<Rightarrow> string list \<Rightarrow> (string \<times> nat) list" where
  \<comment> \<open>each publisher with the number of its topic folders\<close>
  "topic_counts fs root pubs = map (\<lambda>pub. (pub, length (subdirs fs (root @ [pub])))) pubs"

definition chapter_counts :: "fsnode \<Rightarrow> path \<Rightarrow> string \<Rightarrow> (string \<times> nat) list" where
  \<comment> \<open>each topic of a publisher, under the key \<open>pub/topic\<close>, with the number of its
      chapter folders\<close>
  "chapter_counts fs root pub =
     map (\<lambda>topic. (pub @ ''/'' @ topic, length (subdirs fs (root @ [pub, topic]))))
       (subdirs fs (root @ [pub]))"

definition assign :: "('k \<times> 'v) list \<Rightarrow> 'k \<times> 'v \<Rightarrow> ('k \<times> 'v) list" where
  \<comment> \<open>\<open>d[k] = v\<close> for a pair\<close>
  "assign d kv = AList.update (fst kv) (snd kv) d"

section \<open>An example library\<close>

text \<open>
  A small library at \<open>/lib\<close>: one publisher \<open>$_A\<close> with the tags \<open>x\<close> and \<open>y\<close>, its
  topic \<open>alpha\<close> without a tag file, its topic \<open>beta\<close> with the tags \<open>red\<close> and \<open>alpha\<close>,
  and a directory \<open>notes\<close> that is no publisher.
\<close>

definition small_lib :: fsnode where
  "small_lib = Directory
     [(''$_A'', Directory
        [(''tag.txt'', RegFile ''x, y''),
         (''alpha'', Directory []),
         (''beta'', Directory [(''tag.txt'', RegFile ''red, alpha'')])]),
      (''notes'', Directory [])]"

definition small_fs :: fsnode where
  "small_fs = Directory [(''lib'', small_lib)]"

definition small_browser :: tag_browser where
  \<comment> \<open>the window that \<open>TagBrowser_init\<close> builds on the example library\<close>
  "small_browser =
     \<lparr>root_directory = [''lib''],
      tag_cache = [(''$_A'', [''x'', ''y'']), (''$_A/beta'', [''red'', ''alpha''])],
      all_publishers = [''$_A''], all_tags = [''alpha'', ''red'', ''x'', ''y''],
      all_topics = [], publisher_list = [''$_A''], topic_list = [], chapter_list = [],
      tag_list = [''alpha'', ''red'', ''x'', ''y'']\<rparr>"

text \<open>
  A library for the statistics: the publishers \<open>$_A\<close> and \<open>#_B\<close>, each with three topics
  of two chapters, a tag file at the root and in every second chapter, and a directory
  \<open>misc\<close> that is no publisher. \<open>stats_browser\<close> is the window built on it.
\<close>

definition chapters2 :: fsnode where
  "chapters2 = Directory [(''C1'', Directory []), (''C2'', Directory [(''tag.txt'', RegFile ''x'')])]"

definition topics3 :: fsnode where
  "topics3 = Directory [(''T1'', chapters2), (''T2'', chapters2), (''T3'', chapters2)]"

definition stats_lib :: fsnode where
  "stats_lib = Directory
     [(''$_A'', topics3), (''tag.txt'', RegFile ''x, y''), (''misc'', Directory []),
      (''#_B'', topics3)]"

definition stats_fs :: fsnode where
  "stats_fs = Directory [(''lib'', stats_lib)]"

definition stats_browser :: tag_browser where
  "stats_browser =
     load_all_tags stats_fs
       ((new_browser [''lib''])
          \<lparr>all_publishers := [''#_B'', ''$_A''], publisher_list := [''#_B'', ''$_A'']\<rparr>)"

section \<open>Splitting, joining and stripping\<close>

lemma str_split_nonempty: "str_split c s \<noteq> []"
  by (induction s) auto

lemma str_split_no_sep: "c \<notin> set a \<Longrightarrow> str_split c a = [a]"
  by (induction a) auto

lemma str_split_append: "c \<notin> set a \<Longrightarrow> str_split c (a @ c # b) = a # str_split c b"
  by (induction a) auto

lemma str_split_pieces: "p \<in> set (str_split c s) \<Longrightarrow> c \<notin> set p"
proof (induction s arbitrary: p)
  case Nil
  then show ?case by simp
next
  case (Cons x xs)
  obtain q qs where q: "str_split c xs = q # qs"
    using str_split_nonempty [of c xs] by (cases "str_split c xs") auto
  show ?case
  proof (cases "x = c")
    case True
    with Cons show ?thesis by auto
  next
    case False
    with Cons q show ?thesis by auto
  qed
qed

lemma universal_newlines_id: "CHR 0x0D \<notin> set s \<Longrightarrow> universal_newlines s = s"
  by (induction s rule: universal_newlines.induct) auto

lemma universal_newlines_no_cr: "CHR 0x0D \<notin> set (universal_newlines s)"
  by (induction s rule: universal_newlines.induct) auto

section \<open>Reading back what was written\<close>

lemma lookup_write_text: "write_text fs p s = Inr fs' \<Longrightarrow> lookup fs' p = Some (RegFile s)"
proof (induction fs p s arbitrary: fs' rule: write_text.induct)
  case (4 es c cs s)
  show ?case
  proof (cases "map_of es c")
    case None
    with 4 show ?thesis by (auto split: if_splits simp: map_add_def)
  next
    case (Some n)
    with 4 show ?thesis by (auto split: sum.splits simp: update_conv')
  qed
qed auto


section \<open>Stripped strings\<close>

lemma dropWhile_hd_id: "t \<noteq> [] \<Longrightarrow> \<not> P (hd t) \<Longrightarrow> dropWhile P t = t"
  by (cases t) auto

lemma str_strip_clean:
  assumes "t \<noteq> []" "\<not> is_space (hd t)" "\<not> is_space (last t)"
  shows "str_strip t = t"
proof -
  have "dropWhile is_space t = t"
    using assms by (simp add: dropWhile_hd_id)
  moreover have "dropWhile is_space (rev t) = rev t"
    using assms by (simp add: dropWhile_hd_id hd_rev)
  ultimately show ?thesis by (simp add: str_strip_def)
qed

lemma is_space_blank: "is_space CHR '' ''"
  by (simp add: is_space_def)

lemma str_strip_blank:  "str_strip (CHR '' '' # t) = str_strip t"
  by (simp add: str_strip_def is_space_blank)

lemma str_strip_subset: "set (str_strip s) \<subseteq> set s"
proof -
  have "set (dropWhile is_space (rev (dropWhile is_space s))) \<subseteq> set (rev (dropWhile is_space s))"
    using set_dropWhileD by fastforce
  moreover have "set (dropWhile is_space s) \<subseteq> set s"
    using set_dropWhileD by fastforce
  ultimately show ?thesis by (auto simp: str_strip_def)
qed

lemma str_strip_last: "str_strip s \<noteq> [] \<Longrightarrow> \<not> is_space (last (str_strip s))"
  by (simp add: str_strip_def last_rev hd_dropWhile)

lemma str_strip_hd:
  assumes "str_strip s \<noteq> []"
  shows "\<not> is_space (hd (str_strip s))"
proof -
  define u where "u = dropWhile is_space s"
  define w where "w = dropWhile is_space (rev u)"
  have r: "str_strip s = rev w" by (simp add: str_strip_def u_def w_def)
  with assms have w: "w \<noteq> []" by simp
  have "rev u = takeWhile is_space (rev u) @ w" by (simp add: w_def)
  then have "u = rev w @ rev (takeWhile is_space (rev u))"
    by (metis rev_append rev_rev_ident)
  with w have "hd u = hd (rev w)" by (metis hd_append2 rev_is_Nil_conv)
  moreover have "u \<noteq> []" using w by (auto simp: w_def)
  then have "\<not> is_space (hd u)" unfolding u_def by (rule hd_dropWhile)
  ultimately show ?thesis using r by simp
qed


section \<open>The tag store\<close>

lemma load_tags_alt: "load_tags fs p = (if isfile fs p then split_tags (read_text fs p) else [])"
  by (simp add: load_tags_def split_tags_def)

lemma split_tags_blank: "split_tags (CHR '' '' # s) = split_tags s"
proof -
  obtain q qs where q: "str_split CHR '','' s = q # qs"
    using str_split_nonempty [of "CHR '',''" s] by (cases "str_split CHR '','' s") auto
  then show ?thesis by (simp add: split_tags_def str_strip_blank)
qed

lemma split_tags_single: "clean_tag t \<Longrightarrow> split_tags t = [t]"
  by (simp add: split_tags_def clean_tag_def str_split_no_sep str_strip_clean)

lemma split_tags_cons:
  "clean_tag t \<Longrightarrow> split_tags (t @ CHR '','' # s) = t # split_tags s"
  by (simp add: split_tags_def clean_tag_def str_split_append str_strip_clean)

lemma split_tags_join: "\<forall>t\<in>set ts. clean_tag t \<Longrightarrow> split_tags (str_join '', '' ts) = ts"
proof (induction "'', ''" ts rule: str_join.induct)
  case 1
  then show ?case by (simp add: split_tags_def str_strip_def)
next
  case (2 x)
  then show ?case by (simp add: split_tags_single)
next
  case (3 x y ys)
  then have "split_tags (str_join '', '' (y # ys)) = y # ys" by simp
  moreover have "str_join '', '' (x # y # ys) = x @ CHR '','' # CHR '' '' # str_join '', '' (y # ys)"
    by simp
  ultimately show ?case using 3 by (simp only: split_tags_cons split_tags_blank list.set_intros(1))
qed

lemma set_str_join: "set (str_join sep xs) \<subseteq> set sep \<union> \<Union> (set ` set xs)"
  by (induction sep xs rule: str_join.induct) auto

lemma split_tags_clean: "t \<in> set (split_tags s) \<Longrightarrow> clean_tag t"
proof -
  assume "t \<in> set (split_tags s)"
  then obtain p where p: "p \<in> set (str_split CHR '','' s)" "t = str_strip p" "str_strip p \<noteq> []"
    by (auto simp: split_tags_def)
  from p(1) have "CHR '','' \<notin> set p" by (rule str_split_pieces)
  with str_strip_subset [of p] have "CHR '','' \<notin> set (str_strip p)" by auto
  with p show ?thesis by (simp add: clean_tag_def str_strip_hd str_strip_last)
qed

lemma isfile_write_text: "write_text fs p s = Inr fs' \<Longrightarrow> isfile fs' p"
  by (simp add: isfile_def lookup_write_text)

lemma load_tags_save_tags:
  assumes "save_tags fs p tags = Inr fs'"
    and "\<forall>t\<in>set tags. clean_tag t \<and> CHR 0x0D \<notin> set t"
  shows "load_tags fs' p = sort (remdups tags)"
proof -
  let ?ts = "sort (remdups tags)"
  from assms(1) have w: "write_text fs p (str_join '', '' ?ts) = Inr fs'"
    by (simp add: save_tags_def)
  have "CHR 0x0D \<notin> set (str_join '', '' ?ts)"
    using set_str_join [of "'', ''" ?ts] assms(2) by auto
  then have "read_text fs' p = str_join '', '' ?ts"
    using lookup_write_text [OF w] by (simp add: read_text_def universal_newlines_id)
  moreover have "\<forall>t\<in>set ?ts. clean_tag t" using assms(2) by simp
  ultimately show ?thesis
    using isfile_write_text [OF w] by (simp add: load_tags_alt split_tags_join)
qed


lemma write_text_succeeds:
  "isdir fs dir \<Longrightarrow> \<not> isdir fs (dir @ [name]) \<Longrightarrow> \<exists>fs'. write_text fs (dir @ [name]) s = Inr fs'"
proof (induction dir arbitrary: fs)
  case Nil
  then obtain es where fs: "fs = Directory es"
    by (cases fs) (auto simp: isdir_def)
  show ?case
  proof (cases "map_of es name")
    case None
    with fs show ?thesis by simp
  next
    case (Some n)
    with Nil fs obtain c where "n = RegFile c"
      by (cases n) (auto simp: isdir_def)
    with Some fs show ?thesis by simp
  qed
next
  case (Cons d dir)
  then obtain es where fs: "fs = Directory es"
    by (cases fs) (auto simp: isdir_def)
  with Cons.prems obtain n where n: "map_of es d = Some n"
    by (cases "map_of es d") (auto simp: isdir_def)
  with Cons.prems fs have "isdir n dir" "\<not> isdir n (dir @ [name])"
    by (auto simp: isdir_def)
  then obtain n' where "write_text n (dir @ [name]) s = Inr n'"
    using Cons.IH by blast
  with fs n show ?case by simp
qed

text \<open>
  Claim C1, amended. Let every tag be non-empty, without a comma, without leading or
  trailing whitespace, and without a carriage return. Then \<open>save_tags\<close> into an existing
  directory, at a name that is no directory, succeeds, and \<open>load_tags\<close> on the same path
  then returns the sorted, deduplicated tags.
\<close>

theorem save_load_roundtrip:
  assumes "isdir fs dir" and "\<not> isdir fs (dir @ [name])"
    and "\<forall>t\<in>set tags. clean_tag t \<and> CHR 0x0D \<notin> set t"
  shows "\<exists>fs'. save_tags fs (dir @ [name]) tags = Inr fs'
           \<and> load_tags fs' (dir @ [name]) = sorted_list_of_set (set tags)"
proof -
  obtain fs' where "save_tags fs (dir @ [name]) tags = Inr fs'"
    using write_text_succeeds [OF assms(1,2)] by (auto simp: save_tags_def)
  with assms(3) show ?thesis
    by (simp add: load_tags_save_tags sorted_list_of_set_sort_remdups)
qed

theorem save_load_roundtrip_witness:
  "isdir (Directory [(''d'', Directory [])]) [''d'']
   \<and> \<not> isdir (Directory [(''d'', Directory [])]) ([''d''] @ [''tag.txt''])
   \<and> clean_tag ''b'' \<and> CHR 0x0D \<notin> set ''b'' \<and> clean_tag ''a'' \<and> CHR 0x0D \<notin> set ''a''
   \<and> (\<exists>fs'. save_tags (Directory [(''d'', Directory [])]) ([''d''] @ [''tag.txt''])
                [''b'', ''a'', ''b''] = Inr fs'
           \<and> load_tags fs' ([''d''] @ [''tag.txt'']) = [''a'', ''b''])"
proof -
  have h1: "isdir (Directory [(''d'', Directory [])]) [''d'']"
    by (simp add: isdir_def)
  have h2: "\<not> isdir (Directory [(''d'', Directory [])]) ([''d''] @ [''tag.txt''])"
    by (simp add: isdir_def)
  have h3: "\<forall>t\<in>set [''b'', ''a'', ''b'']. clean_tag t \<and> CHR 0x0D \<notin> set t"
    by (simp add: clean_tag_def is_space_def)
  have h4: "sorted_list_of_set (set [''b'', ''a'', ''b'']) = [''a'', ''b'']"
    by code_simp
  show ?thesis
    using h1 h2 h3 save_load_roundtrip [OF h1 h2 h3] unfolding h4 by simp
qed

text \<open>
  Claim C1 as stated, without the condition on carriage returns, fails: the tag \<open>a\rb\<close> is
  non-empty and has neither a comma nor outer whitespace, it is written as it is, and it
  is read back as \<open>a\nb\<close>.
\<close>

theorem save_load_carriage_return:
  "clean_tag [CHR ''a'', CHR 0x0D, CHR ''b'']
   \<and> save_tags (Directory []) [''tag.txt''] [[CHR ''a'', CHR 0x0D, CHR ''b'']]
       = Inr (Directory [(''tag.txt'', RegFile [CHR ''a'', CHR 0x0D, CHR ''b''])])
   \<and> load_tags (Directory [(''tag.txt'', RegFile [CHR ''a'', CHR 0x0D, CHR ''b''])]) [''tag.txt'']
       = [[CHR ''a'', CHR 0x0A, CHR ''b'']]
   \<and> [[CHR ''a'', CHR 0x0A, CHR ''b'']] \<noteq> sorted_list_of_set (set [[CHR ''a'', CHR 0x0D, CHR ''b'']])"
  by (simp add: clean_tag_def is_space_def save_tags_def load_tags_def isfile_def read_text_def
      str_strip_def)

text \<open>
  Claim C5. Where nothing exists at the path of the tag file, \<open>load_tags\<close> returns the
  empty list; \<open>load_tags\<close> has no error result.
\<close>

theorem load_tags_missing: "lookup fs tag_file = None \<Longrightarrow> load_tags fs tag_file = []"
  by (simp add: load_tags_def isfile_def)

theorem load_tags_missing_witness:
  "lookup (Directory [(''d'', Directory [])]) [''d'', ''tag.txt''] = None
   \<and> load_tags (Directory [(''d'', Directory [])]) [''d'', ''tag.txt''] = []"
proof -
  have h: "lookup (Directory [(''d'', Directory [])]) [''d'', ''tag.txt''] = None"
    by simp
  show ?thesis using h load_tags_missing [OF h] by simp
qed

text \<open>
  Claim C6. Saving \<open>fiction\<close>, \<open>Fiction\<close> and \<open>drama\<close> and loading them again gives three
  distinct tags: upper and lower case are kept apart.
\<close>

theorem case_sensitive_tags:
  assumes "isdir fs dir" and "\<not> isdir fs (dir @ [name])"
  shows "\<exists>fs'. save_tags fs (dir @ [name]) [''fiction'', ''Fiction'', ''drama''] = Inr fs'
           \<and> load_tags fs' (dir @ [name]) = [''Fiction'', ''drama'', ''fiction'']
           \<and> distinct (load_tags fs' (dir @ [name])) \<and> length (load_tags fs' (dir @ [name])) = 3"
proof -
  let ?tags = "[''fiction'', ''Fiction'', ''drama'']"
  obtain fs' where s: "save_tags fs (dir @ [name]) ?tags = Inr fs'"
    using write_text_succeeds [OF assms] by (auto simp: save_tags_def)
  have "\<forall>t\<in>set ?tags. clean_tag t \<and> CHR 0x0D \<notin> set t"
    by (simp add: clean_tag_def is_space_def)
  then have "load_tags fs' (dir @ [name]) = sort (remdups ?tags)"
    using s by (rule load_tags_save_tags [rotated])
  moreover have "sort (remdups ?tags) = [''Fiction'', ''drama'', ''fiction'']"
    by code_simp
  ultimately show ?thesis using s by simp
qed

theorem case_sensitive_tags_witness:
  "isdir (Directory [(''d'', Directory [])]) [''d'']
   \<and> \<not> isdir (Directory [(''d'', Directory [])]) ([''d''] @ [''tag.txt''])
   \<and> (\<exists>fs'. save_tags (Directory [(''d'', Directory [])]) ([''d''] @ [''tag.txt''])
                [''fiction'', ''Fiction'', ''drama''] = Inr fs'
           \<and> load_tags fs' ([''d''] @ [''tag.txt'']) = [''Fiction'', ''drama'', ''fiction'']
           \<and> distinct (load_tags fs' ([''d''] @ [''tag.txt'']))
           \<and> length (load_tags fs' ([''d''] @ [''tag.txt''])) = 3)"
proof -
  have h1: "isdir (Directory [(''d'', Directory [])]) [''d'']"
    by (simp add: isdir_def)
  have h2: "\<not> isdir (Directory [(''d'', Directory [])]) ([''d''] @ [''tag.txt''])"
    by (simp add: isdir_def)
  show ?thesis
    using h1 h2 case_sensitive_tags [OF h1 h2] by blast
qed


section \<open>The scan of the tag files\<close>

lemma load_tags_clean: "t \<in> set (load_tags fs p) \<Longrightarrow> clean_tag t"
  by (auto simp: load_tags_alt split_tags_clean split: if_splits)

lemma set_update_cases: "e \<in> set (AList.update k v al) \<Longrightarrow> e = (k, v) \<or> e \<in> set al"
  by (induction al) (auto split: if_splits)

lemma scan_tags_entries:
  "(k, v) \<in> set (scan_tags fs root rels cache) \<Longrightarrow>
     (k, v) \<in> set cache
     \<or> (\<exists>rel\<in>set rels. k = relpath rel \<and> v = load_tags fs (root @ rel @ [''tag.txt'']) \<and> v \<noteq> [])"
proof (induction rels arbitrary: cache)
  case Nil
  then show ?case by simp
next
  case (Cons rel rels)
  let ?tags = "load_tags fs (root @ rel @ [''tag.txt''])"
  let ?cache = "if ?tags \<noteq> [] then AList.update (relpath rel) ?tags cache else cache"
  from Cons.prems have "(k, v) \<in> set (scan_tags fs root rels ?cache)"
    by (simp add: Let_def)
  from Cons.IH [OF this] show ?case
    by (auto dest: set_update_cases split: if_splits)
qed

lemma scan_tags_unchanged:
  "\<forall>rel\<in>set rels. relpath rel = k \<longrightarrow> load_tags fs (root @ rel @ [''tag.txt'']) = [] \<Longrightarrow>
     map_of (scan_tags fs root rels cache) k = map_of cache k"
proof (induction rels arbitrary: cache)
  case Nil
  then show ?case by simp
next
  case (Cons rel rels)
  then show ?case by (auto simp: Let_def update_conv')
qed

lemma scan_tags_recorded:
  assumes "inj_on relpath (set rels)" and "rel \<in> set rels"
    and "load_tags fs (root @ rel @ [''tag.txt'']) \<noteq> []"
  shows "map_of (scan_tags fs root rels cache) (relpath rel)
           = Some (load_tags fs (root @ rel @ [''tag.txt'']))"
  using assms
proof (induction rels arbitrary: cache)
  case Nil
  then show ?case by simp
next
  case (Cons r rels)
  let ?tags = "load_tags fs (root @ r @ [''tag.txt''])"
  let ?cache = "if ?tags \<noteq> [] then AList.update (relpath r) ?tags cache else cache"
  have step: "scan_tags fs root (r # rels) cache = scan_tags fs root rels ?cache"
    by (simp add: Let_def)
  show ?case
  proof (cases "rel \<in> set rels")
    case True
    moreover from Cons.prems(1) have "inj_on relpath (set rels)" by (simp add: inj_on_def)
    ultimately show ?thesis using Cons.IH Cons.prems(3) step by simp
  next
    case False
    with Cons.prems have r: "r = rel" by simp
    have "\<forall>x\<in>set rels. relpath x = relpath rel \<longrightarrow> load_tags fs (root @ x @ [''tag.txt'']) = []"
      using Cons.prems(1) False r by (auto simp: inj_on_def)
    then have "map_of (scan_tags fs root rels ?cache) (relpath rel) = map_of ?cache (relpath rel)"
      by (rule scan_tags_unchanged)
    with Cons.prems(3) r step show ?thesis by (simp add: update_conv')
  qed
qed

lemma scan_tags_missing:
  assumes "inj_on relpath (set rels)" and "rel \<in> set rels"
    and "load_tags fs (root @ rel @ [''tag.txt'']) = []"
  shows "map_of (scan_tags fs root rels []) (relpath rel) = None"
proof -
  have "\<forall>x\<in>set rels. relpath x = relpath rel \<longrightarrow> load_tags fs (root @ x @ [''tag.txt'']) = []"
    using assms by (auto simp: inj_on_def)
  then have "map_of (scan_tags fs root rels []) (relpath rel) = map_of [] (relpath rel)"
    by (rule scan_tags_unchanged)
  then show ?thesis by simp
qed

section \<open>Relative paths and the walk\<close>

lemma split_join: "a \<noteq> [] \<Longrightarrow> \<forall>n\<in>set a. c \<notin> set n \<Longrightarrow> str_split c (str_join [c] a) = a"
proof (induction "[c]" a rule: str_join.induct)
  case 1
  then show ?case by simp
next
  case (2 x)
  then show ?case by (simp add: str_split_no_sep)
next
  case (3 x y ys)
  then show ?case by (simp add: str_split_append)
qed

lemma relpath_inj:
  assumes "relpath a = relpath b" and "\<forall>n\<in>set a. valid_name n" and "\<forall>n\<in>set b. valid_name n"
  shows "a = b"
proof -
  have one: "x = []" if "relpath x = ''.''" "\<forall>n\<in>set x. valid_name n" for x
  proof (rule ccontr)
    assume "x \<noteq> []"
    with that(2) have "x = str_split CHR ''/'' (str_join ''/'' x)"
      by (simp add: split_join valid_name_def)
    also from \<open>x \<noteq> []\<close> that(1) have "str_join ''/'' x = ''.''"
      by (simp add: relpath_def)
    finally have "x = [''.'']" by simp
    with that(2) show False by (simp add: valid_name_def)
  qed
  show ?thesis
  proof (cases "a = [] \<or> b = []")
    case True
    then show ?thesis
    proof
      assume a: "a = []"
      then have "relpath b = ''.''" using assms(1) by (simp add: relpath_def)
      with assms(3) a show ?thesis using one [of b] by simp
    next
      assume b: "b = []"
      then have "relpath a = ''.''" using assms(1) by (simp add: relpath_def)
      with assms(2) b show ?thesis using one [of a] by simp
    qed
  next
    case False
    with assms(2) have "a = str_split CHR ''/'' (str_join ''/'' a)"
      by (simp add: split_join valid_name_def)
    also from False assms(1) have "str_join ''/'' a = str_join ''/'' b"
      by (simp add: relpath_def)
    also from False assms(3) have "str_split CHR ''/'' (str_join ''/'' b) = b"
      by (simp add: split_join valid_name_def)
    finally show ?thesis .
  qed
qed

lemma map_of_distinct: "distinct (map fst es) \<Longrightarrow> (map_of es c = Some n) = ((c, n) \<in> set es)"
  by (simp add: map_of_eq_Some_iff)

lemma isdir_Directory:
  "isdir (Directory es) p =
     (p = [] \<or> (\<exists>c cs n. p = c # cs \<and> map_of es c = Some n \<and> isdir n cs))"
  by (cases p) (auto simp: isdir_def split: option.splits)

lemma isdir_RegFile: "\<not> isdir (RegFile x) p"
  by (cases p) (auto simp: isdir_def)

lemma walk_iff:
  "wf_fs n \<Longrightarrow> (rel \<in> set (walk pre n)) = (\<exists>suf. rel = pre @ suf \<and> isdir n suf)"
proof (induction pre n arbitrary: rel rule: walk.induct)
  case (1 pre x)
  then show ?case by (simp add: isdir_RegFile)
next
  case (2 pre es)
  from "2.prems" have d: "distinct (map fst es)" and w: "\<And>e. e \<in> set es \<Longrightarrow> wf_fs (snd e)"
    by (auto simp: list_all_iff)
  have ih: "(rel \<in> set (walk (pre @ [fst e]) (snd e)))
              = (\<exists>suf. rel = (pre @ [fst e]) @ suf \<and> isdir (snd e) suf)"
    if "e \<in> set es" for e
    using "2.IH" [OF that w [OF that]] .
  have "(rel \<in> set (walk pre (Directory es)))
          = (rel = pre \<or> (\<exists>e\<in>set es. rel \<in> set (walk (pre @ [fst e]) (snd e))))"
    by auto
  also have "\<dots> = (rel = pre \<or> (\<exists>e\<in>set es. \<exists>suf. rel = (pre @ [fst e]) @ suf \<and> isdir (snd e) suf))"
    using ih by blast
  also have "\<dots> = (\<exists>suf. rel = pre @ suf \<and> isdir (Directory es) suf)"
  proof
    assume "rel = pre \<or> (\<exists>e\<in>set es. \<exists>suf. rel = (pre @ [fst e]) @ suf \<and> isdir (snd e) suf)"
    then show "\<exists>suf. rel = pre @ suf \<and> isdir (Directory es) suf"
    proof
      assume "rel = pre"
      then have "rel = pre @ [] \<and> isdir (Directory es) []" by (simp add: isdir_def)
      then show ?thesis by blast
    next
      assume "\<exists>e\<in>set es. \<exists>suf. rel = (pre @ [fst e]) @ suf \<and> isdir (snd e) suf"
      then obtain e suf where e: "e \<in> set es" "rel = (pre @ [fst e]) @ suf" "isdir (snd e) suf"
        by blast
      from e(1) have "map_of es (fst e) = Some (snd e)"
        using map_of_distinct [OF d, of "fst e" "snd e"] by simp
      with e(3) have "isdir (Directory es) (fst e # suf)"
        by (simp add: isdir_def)
      with e(2) have "rel = pre @ (fst e # suf) \<and> isdir (Directory es) (fst e # suf)" by simp
      then show ?thesis by blast
    qed
  next
    assume "\<exists>suf. rel = pre @ suf \<and> isdir (Directory es) suf"
    then obtain suf where suf: "rel = pre @ suf" "isdir (Directory es) suf" by blast
    show "rel = pre \<or> (\<exists>e\<in>set es. \<exists>suf. rel = (pre @ [fst e]) @ suf \<and> isdir (snd e) suf)"
    proof (cases suf)
      case Nil
      with suf show ?thesis by simp
    next
      case (Cons c cs)
      with suf(2) obtain n where n: "map_of es c = Some n" "isdir n cs"
        by (auto simp: isdir_def split: option.splits)
      from n(1) have "(c, n) \<in> set es" by (rule map_of_SomeD)
      moreover from suf(1) Cons have "rel = (pre @ [fst (c, n)]) @ cs" by simp
      ultimately show ?thesis using n(2) by force
    qed
  qed
  finally show ?case .
qed

lemma walk_valid:
  "wf_fs n \<Longrightarrow> rel \<in> set (walk pre n) \<Longrightarrow> \<exists>suf. rel = pre @ suf \<and> (\<forall>x\<in>set suf. valid_name x)"
proof (induction pre n arbitrary: rel rule: walk.induct)
  case (1 pre x)
  then show ?case by simp
next
  case (2 pre es)
  show ?case
  proof (cases "rel = pre")
    case True
    then show ?thesis by simp
  next
    case False
    with "2.prems" obtain e where e: "e \<in> set es" "rel \<in> set (walk (pre @ [fst e]) (snd e))"
      by auto
    from "2.prems" e have v: "valid_name (fst e)" "wf_fs (snd e)"
      by (auto simp: list_all_iff)
    from "2.IH" [OF e(1) v(2) e(2)] obtain suf where
      "rel = (pre @ [fst e]) @ suf" "\<forall>x\<in>set suf. valid_name x" by blast
    with v(1) have "rel = pre @ (fst e # suf) \<and> (\<forall>x\<in>set (fst e # suf). valid_name x)"
      by simp
    then show ?thesis by blast
  qed
qed

lemma lookup_append:
  "lookup fs (p @ q) = (case lookup fs p of None \<Rightarrow> None | Some n \<Rightarrow> lookup n q)"
  by (induction fs p rule: lookup.induct) (auto split: option.splits)

lemma isdir_below: "lookup fs root = Some n \<Longrightarrow> isdir fs (root @ rel) = isdir n rel"
  by (simp add: isdir_def lookup_append)

lemma os_walk_iff:
  assumes "lookup fs root = Some n" and "wf_fs n"
  shows "(rel \<in> set (os_walk fs root)) = isdir fs (root @ rel)"
  using assms walk_iff [OF assms(2), of rel "[]"] by (simp add: os_walk_def isdir_below)

lemma os_walk_inj:
  assumes "lookup fs root = Some n" and "wf_fs n"
  shows "inj_on relpath (set (os_walk fs root))"
proof (rule inj_onI)
  fix a b
  assume "a \<in> set (os_walk fs root)" "b \<in> set (os_walk fs root)" "relpath a = relpath b"
  moreover have "\<forall>x\<in>set r. valid_name x" if "r \<in> set (os_walk fs root)" for r
    using that assms walk_valid [OF assms(2), of r "[]"] by (auto simp: os_walk_def)
  ultimately show "a = b" using relpath_inj by blast
qed

lemma tag_cache_load_all_tags:
  "tag_cache (load_all_tags fs s)
     = scan_tags fs (root_directory s) (os_walk fs (root_directory s)) []"
  by (simp add: load_all_tags_def Let_def)

lemma set_all_tags_load_all_tags:
  "set (all_tags (load_all_tags fs s)) = (\<Union>e\<in>set (tag_cache (load_all_tags fs s)). set (snd e))"
  by (simp add: load_all_tags_def Let_def)

text \<open>
  Claim C8. Let the root be a directory of a well-formed file system. After
  \<open>load_all_tags\<close> the cache does not depend on what it held before; for every directory
  below the root it has an entry under the directory's relative path exactly when the
  directory's tag file loads to a non-empty list, which is then the entry; and every entry
  is such a directory's.
\<close>

theorem load_all_tags_cache:
  assumes "lookup fs (root_directory s) = Some n" and "wf_fs n"
  shows "tag_cache (load_all_tags fs (s\<lparr>tag_cache := old\<rparr>)) = tag_cache (load_all_tags fs s)
    \<and> (\<forall>rel. isdir fs (root_directory s @ rel) \<longrightarrow>
          map_of (tag_cache (load_all_tags fs s)) (relpath rel)
            = (if load_tags fs (root_directory s @ rel @ [''tag.txt'']) = [] then None
               else Some (load_tags fs (root_directory s @ rel @ [''tag.txt'']))))
    \<and> (\<forall>k tags. (k, tags) \<in> set (tag_cache (load_all_tags fs s)) \<longrightarrow>
          (\<exists>rel. isdir fs (root_directory s @ rel) \<and> k = relpath rel
                 \<and> tags = load_tags fs (root_directory s @ rel @ [''tag.txt'']) \<and> tags \<noteq> []))"
proof (intro conjI allI impI)
  show "tag_cache (load_all_tags fs (s\<lparr>tag_cache := old\<rparr>)) = tag_cache (load_all_tags fs s)"
    by (simp add: tag_cache_load_all_tags)
next
  fix rel
  assume "isdir fs (root_directory s @ rel)"
  then have "rel \<in> set (os_walk fs (root_directory s))"
    by (simp add: os_walk_iff [OF assms])
  then show "map_of (tag_cache (load_all_tags fs s)) (relpath rel)
      = (if load_tags fs (root_directory s @ rel @ [''tag.txt'']) = [] then None
         else Some (load_tags fs (root_directory s @ rel @ [''tag.txt''])))"
    using os_walk_inj [OF assms]
    by (simp add: tag_cache_load_all_tags scan_tags_recorded scan_tags_missing)
next
  fix k tags
  assume "(k, tags) \<in> set (tag_cache (load_all_tags fs s))"
  then obtain rel where "rel \<in> set (os_walk fs (root_directory s))" "k = relpath rel"
    "tags = load_tags fs (root_directory s @ rel @ [''tag.txt''])" "tags \<noteq> []"
    using scan_tags_entries [of k tags fs "root_directory s" _ "[]"]
    by (auto simp: tag_cache_load_all_tags)
  then show "\<exists>rel. isdir fs (root_directory s @ rel) \<and> k = relpath rel
      \<and> tags = load_tags fs (root_directory s @ rel @ [''tag.txt'']) \<and> tags \<noteq> []"
    using os_walk_iff [OF assms] by blast
qed

theorem load_all_tags_cache_witness:
  "lookup small_fs (root_directory (new_browser [''lib''])) = Some small_lib
   \<and> wf_fs small_lib
   \<and> isdir small_fs (root_directory (new_browser [''lib'']) @ [''$_A''])
   \<and> map_of (tag_cache (load_all_tags small_fs (new_browser [''lib''])))
        (relpath [''$_A'']) = Some [''x'', ''y'']
   \<and> isdir small_fs (root_directory (new_browser [''lib'']) @ [''$_A'', ''alpha''])
   \<and> map_of (tag_cache (load_all_tags small_fs (new_browser [''lib''])))
        (relpath [''$_A'', ''alpha'']) = None"
proof -
  let ?s = "new_browser [''lib'']"
  have h1: "lookup small_fs (root_directory ?s) = Some small_lib" by code_simp
  have h2: "wf_fs small_lib" by code_simp
  have d1: "isdir small_fs (root_directory ?s @ [''$_A''])" by code_simp
  have d2: "isdir small_fs (root_directory ?s @ [''$_A'', ''alpha''])" by code_simp
  have l1: "load_tags small_fs (root_directory ?s @ [''$_A''] @ [''tag.txt'']) = [''x'', ''y'']"
    by code_simp
  have l2: "load_tags small_fs (root_directory ?s @ [''$_A'', ''alpha''] @ [''tag.txt'']) = []"
    by code_simp
  from load_all_tags_cache [OF h1 h2, of "[]"]
  have "\<forall>rel. isdir small_fs (root_directory ?s @ rel) \<longrightarrow>
          map_of (tag_cache (load_all_tags small_fs ?s)) (relpath rel)
            = (if load_tags small_fs (root_directory ?s @ rel @ [''tag.txt'']) = [] then None
               else Some (load_tags small_fs (root_directory ?s @ rel @ [''tag.txt''])))"
    by blast
  then have
    "map_of (tag_cache (load_all_tags small_fs ?s)) (relpath [''$_A'']) = Some [''x'', ''y'']"
    "map_of (tag_cache (load_all_tags small_fs ?s)) (relpath [''$_A'', ''alpha'']) = None"
    using d1 d2 l1 l2 by auto
  with h1 h2 d1 d2 show ?thesis by blast
qed

lemma cache_tags_clean:
  assumes "e \<in> set (tag_cache (load_all_tags fs s))" and "t \<in> set (snd e)"
  shows "clean_tag t"
proof -
  from assms(1) have "(fst e, snd e) \<in> set (scan_tags fs (root_directory s)
      (os_walk fs (root_directory s)) [])"
    by (simp add: tag_cache_load_all_tags)
  then obtain rel where "snd e = load_tags fs (root_directory s @ rel @ [''tag.txt''])"
    using scan_tags_entries by fastforce
  with assms(2) show ?thesis by (simp add: load_tags_clean)
qed

text \<open>
  Claim C10. Every tag that \<open>load_tags\<close> returns is non-empty, has no leading or trailing
  whitespace and has no comma; so are the tags of the cache and of \<open>all_tags\<close> after
  \<open>load_all_tags\<close>. A tag with a comma is not among the tags loaded after it was saved:
  \<open>a,b\<close> is loaded as the two tags \<open>a\<close> and \<open>b\<close>.
\<close>

theorem loaded_tags_clean:
  "(\<forall>t\<in>set (load_tags fs p). clean_tag t)
   \<and> (\<forall>e\<in>set (tag_cache (load_all_tags fs s)). \<forall>t\<in>set (snd e). clean_tag t)
   \<and> (\<forall>t\<in>set (all_tags (load_all_tags fs s)). clean_tag t)
   \<and> (\<forall>fs' tags t. save_tags fs p tags = Inr fs' \<longrightarrow> t \<in> set tags \<longrightarrow> CHR '','' \<in> set t
         \<longrightarrow> t \<notin> set (load_tags fs' p))
   \<and> (\<forall>fs'. save_tags fs p [''a,b''] = Inr fs' \<longrightarrow> load_tags fs' p = [''a'', ''b''])"
proof (intro conjI allI impI ballI)
  fix t assume "t \<in> set (load_tags fs p)"
  then show "clean_tag t" by (rule load_tags_clean)
next
  fix e t assume "e \<in> set (tag_cache (load_all_tags fs s))" "t \<in> set (snd e)"
  then show "clean_tag t" by (rule cache_tags_clean)
next
  fix t assume "t \<in> set (all_tags (load_all_tags fs s))"
  then show "clean_tag t"
    by (auto simp: set_all_tags_load_all_tags cache_tags_clean)
next
  fix fs' tags t
  assume "save_tags fs p tags = Inr fs'" "t \<in> set tags" "CHR '','' \<in> set t"
  then show "t \<notin> set (load_tags fs' p)"
    using load_tags_clean [of t fs' p] by (auto simp: clean_tag_def)
next
  fix fs' assume "save_tags fs p [''a,b''] = Inr fs'"
  then have w: "write_text fs p ''a,b'' = Inr fs'" by (simp add: save_tags_def)
  show "load_tags fs' p = [''a'', ''b'']"
    using lookup_write_text [OF w]
    by (simp add: load_tags_def isfile_def read_text_def str_strip_def is_space_def)
qed

theorem loaded_tags_clean_witness:
  "''x'' \<in> set (load_tags small_fs [''lib'', ''$_A'', ''tag.txt'']) \<and> clean_tag ''x''
   \<and> (''$_A/beta'', [''red'', ''alpha''])
        \<in> set (tag_cache (load_all_tags small_fs (new_browser [''lib'']))) \<and> clean_tag ''red''
   \<and> ''alpha'' \<in> set (all_tags (load_all_tags small_fs (new_browser [''lib''])))
   \<and> clean_tag ''alpha''
   \<and> save_tags small_fs [''lib'', ''$_A'', ''tag.txt''] [''a,b'', ''c'']
        = Inr (Directory [(''lib'', Directory
            [(''$_A'', Directory
               [(''tag.txt'', RegFile ''a,b, c''),
                (''alpha'', Directory []),
                (''beta'', Directory [(''tag.txt'', RegFile ''red, alpha'')])]),
             (''notes'', Directory [])])])
   \<and> ''a,b'' \<notin> set (load_tags (Directory [(''lib'', Directory
            [(''$_A'', Directory
               [(''tag.txt'', RegFile ''a,b, c''),
                (''alpha'', Directory []),
                (''beta'', Directory [(''tag.txt'', RegFile ''red, alpha'')])]),
             (''notes'', Directory [])])]) [''lib'', ''$_A'', ''tag.txt''])"
proof -
  let ?p = "[''lib'', ''$_A'', ''tag.txt'']"
  let ?s = "new_browser [''lib'']"
  let ?fs' = "Directory [(''lib'', Directory
            [(''$_A'', Directory
               [(''tag.txt'', RegFile ''a,b, c''),
                (''alpha'', Directory []),
                (''beta'', Directory [(''tag.txt'', RegFile ''red, alpha'')])]),
             (''notes'', Directory [])])]"
  note T = loaded_tags_clean [of small_fs ?p ?s]
  have m1: "''x'' \<in> set (load_tags small_fs ?p)" by code_simp
  have m2: "(''$_A/beta'', [''red'', ''alpha'']) \<in> set (tag_cache (load_all_tags small_fs ?s))"
    by code_simp
  have m3: "''alpha'' \<in> set (all_tags (load_all_tags small_fs ?s))" by code_simp
  have m4: "save_tags small_fs ?p [''a,b'', ''c''] = Inr ?fs'" by code_simp
  from T m1 have c1: "clean_tag ''x''" by blast
  from T m2 have c2: "clean_tag ''red''" by fastforce
  from T m3 have c3: "clean_tag ''alpha''" by blast
  from T have "\<forall>fs' tags t. save_tags small_fs ?p tags = Inr fs' \<longrightarrow> t \<in> set tags
      \<longrightarrow> CHR '','' \<in> set t \<longrightarrow> t \<notin> set (load_tags fs' ?p)" by blast
  with m4 have c4: "''a,b'' \<notin> set (load_tags ?fs' ?p)" by fastforce
  from m1 c1 m2 c2 m3 c3 m4 c4 show ?thesis by blast
qed



section \<open>Global search\<close>

lemma startswith_iff: "startswith s q = (\<exists>b. s = q @ b)"
proof
  assume "startswith s q"
  then have "s = q @ drop (length q) s"
    by (metis append_take_drop_id startswith_def)
  then show "\<exists>b. s = q @ b" ..
next
  assume "\<exists>b. s = q @ b"
  then show "startswith s q" by (auto simp: startswith_def)
qed

lemma str_contains_iff: "str_contains q s = (\<exists>a b. s = a @ q @ b)"
proof (induction s)
  case Nil
  then show ?case by auto
next
  case (Cons c cs)
  show ?case
  proof
    assume "str_contains q (c # cs)"
    then consider "startswith (c # cs) q" | "str_contains q cs" by auto
    then show "\<exists>a b. c # cs = a @ q @ b"
    proof cases
      case 1
      then obtain b where "c # cs = [] @ q @ b" by (auto simp: startswith_iff)
      then show ?thesis by blast
    next
      case 2
      with Cons obtain a b where "cs = a @ q @ b" by blast
      then have "c # cs = (c # a) @ q @ b" by simp
      then show ?thesis by blast
    qed
  next
    assume "\<exists>a b. c # cs = a @ q @ b"
    then obtain a b where ab: "c # cs = a @ q @ b" by blast
    show "str_contains q (c # cs)"
    proof (cases a)
      case Nil
      with ab have "startswith (c # cs) q" by (auto simp: startswith_iff)
      then show ?thesis by simp
    next
      case (Cons x a')
      with ab have "cs = a' @ q @ b" by simp
      with Cons.IH show ?thesis by auto
    qed
  qed
qed

lemma search_cache_items:
  "search_cache query cache (ts, cs)
     = (ts @ topic_items query cache, cs @ chapter_items query cache)"
proof (induction cache arbitrary: ts cs)
  case Nil
  then show ?case by (simp add: topic_items_def chapter_items_def)
next
  case (Cons e cache)
  obtain rel tags where e: "e = (rel, tags)" by (cases e)
  show ?case
    unfolding e by (simp add: Cons.IH Let_def topic_items_def chapter_items_def)
qed

lemma matches_iff:
  "matches query (rel, tags) =
     ((\<exists>a b. str_lower (last (str_split CHR ''/'' rel)) = a @ query @ b)
      \<or> (\<exists>tag\<in>set tags. \<exists>a b. str_lower tag = a @ query @ b))"
  by (simp add: matches_def Let_def str_contains_iff list_ex_iff)


lemma in_topic_items:
  "((name, rel) \<in> set (topic_items query cache))
     = (\<exists>tags. (rel, tags) \<in> set cache \<and> matches query (rel, tags)
          \<and> length (str_split CHR ''/'' rel) = 2 \<and> name = str_split CHR ''/'' rel ! 1)"
  unfolding topic_items_def by (induction cache) auto

lemma in_chapter_items:
  "((name, rel) \<in> set (chapter_items query cache))
     = (\<exists>tags. (rel, tags) \<in> set cache \<and> matches query (rel, tags)
          \<and> length (str_split CHR ''/'' rel) = 3
          \<and> name = str_split CHR ''/'' rel ! 2 @ '' ('' @ str_split CHR ''/'' rel ! 1 @ '')'')"
  unfolding chapter_items_def by (induction cache) auto

text \<open>
  Claim C2, amended. Let the query, which is the text stripped and in lower case, be
  non-empty. Then global search shows the publishers of \<open>all_publishers\<close> whose name in
  lower case contains the query; and it shows, of the folders in the tag cache (the
  folders whose tag file holds a tag), those whose last path component in lower case or
  one of whose tags in lower case contains the query: in the topic list when the relative
  path has two components, in the chapter list when it has three.
\<close>

theorem global_search_matches:
  assumes "str_lower (str_strip text) \<noteq> []"
  shows "\<exists>s'. global_search fs s text = Inr s'
    \<and> (\<forall>p. (p \<in> set (publisher_list s'))
          = (p \<in> set (all_publishers s)
             \<and> (\<exists>a b. str_lower p = a @ str_lower (str_strip text) @ b)))
    \<and> (\<forall>name rel. ((name, rel) \<in> set (topic_list s'))
          = (\<exists>tags. (rel, tags) \<in> set (tag_cache s)
               \<and> ((\<exists>a b. str_lower (last (str_split CHR ''/'' rel))
                            = a @ str_lower (str_strip text) @ b)
                    \<or> (\<exists>tag\<in>set tags. \<exists>a b. str_lower tag = a @ str_lower (str_strip text) @ b))
               \<and> length (str_split CHR ''/'' rel) = 2
               \<and> name = str_split CHR ''/'' rel ! 1))
    \<and> (\<forall>name rel. ((name, rel) \<in> set (chapter_list s'))
          = (\<exists>tags. (rel, tags) \<in> set (tag_cache s)
               \<and> ((\<exists>a b. str_lower (last (str_split CHR ''/'' rel))
                            = a @ str_lower (str_strip text) @ b)
                    \<or> (\<exists>tag\<in>set tags. \<exists>a b. str_lower tag = a @ str_lower (str_strip text) @ b))
               \<and> length (str_split CHR ''/'' rel) = 3
               \<and> name = str_split CHR ''/'' rel ! 2 @ '' ('' @ str_split CHR ''/'' rel ! 1 @ '')''))"
proof -
  define q where "q = str_lower (str_strip text)"
  define ps where "ps = [p \<leftarrow> all_publishers s. str_contains q (str_lower p)]"
  define ts where "ts = topic_items q (tag_cache s)"
  define cs where "cs = chapter_items q (tag_cache s)"
  define tl where "tl = [tag \<leftarrow> all_tags s. str_contains q (str_lower tag)]"
  define s' where
    "s' = s\<lparr>publisher_list := ps, topic_list := ts, chapter_list := cs, tag_list := tl\<rparr>"
  have g: "global_search fs s text = Inr s'"
    using assms
    by (simp add: global_search_def Let_def search_cache_items q_def ps_def ts_def cs_def
        tl_def s'_def)
  have sel: "publisher_list s' = ps" "topic_list s' = ts" "chapter_list s' = cs"
    by (simp_all add: s'_def)
  have p: "(p \<in> set ps) = (p \<in> set (all_publishers s) \<and> (\<exists>a b. str_lower p = a @ q @ b))"
    for p
    by (simp add: ps_def str_contains_iff)
  have t: "((name, rel) \<in> set ts)
      = (\<exists>tags. (rel, tags) \<in> set (tag_cache s)
           \<and> ((\<exists>a b. str_lower (last (str_split CHR ''/'' rel)) = a @ q @ b)
                \<or> (\<exists>tag\<in>set tags. \<exists>a b. str_lower tag = a @ q @ b))
           \<and> length (str_split CHR ''/'' rel) = 2
           \<and> name = str_split CHR ''/'' rel ! 1)" for name rel
    unfolding ts_def in_topic_items matches_iff ..
  have c: "((name, rel) \<in> set cs)
      = (\<exists>tags. (rel, tags) \<in> set (tag_cache s)
           \<and> ((\<exists>a b. str_lower (last (str_split CHR ''/'' rel)) = a @ q @ b)
                \<or> (\<exists>tag\<in>set tags. \<exists>a b. str_lower tag = a @ q @ b))
           \<and> length (str_split CHR ''/'' rel) = 3
           \<and> name = str_split CHR ''/'' rel ! 2 @ '' ('' @ str_split CHR ''/'' rel ! 1 @ '')'')"
    for name rel
    unfolding cs_def in_chapter_items matches_iff ..
  show ?thesis
    unfolding q_def [symmetric]
    by (rule exI [of _ s']) (simp only: g sel p t c simp_thms)
qed

theorem global_search_matches_witness:
  "str_lower (str_strip ''Alpha '') \<noteq> []
   \<and> (\<exists>s'. global_search small_fs small_browser ''Alpha '' = Inr s'
         \<and> (''beta'', ''$_A/beta'') \<in> set (topic_list s'))"
proof -
  let ?q = "str_lower (str_strip ''Alpha '')"
  have h: "?q \<noteq> []" by code_simp
  from global_search_matches [OF h, of small_fs small_browser]
  obtain s' where s': "global_search small_fs small_browser ''Alpha '' = Inr s'"
    and t: "\<forall>name rel. ((name, rel) \<in> set (topic_list s'))
          = (\<exists>tags. (rel, tags) \<in> set (tag_cache small_browser)
               \<and> ((\<exists>a b. str_lower (last (str_split CHR ''/'' rel)) = a @ ?q @ b)
                    \<or> (\<exists>tag\<in>set tags. \<exists>a b. str_lower tag = a @ ?q @ b))
               \<and> length (str_split CHR ''/'' rel) = 2
               \<and> name = str_split CHR ''/'' rel ! 1)"
    by (elim exE conjE) (rule that, assumption, assumption)
  have e: "(''$_A/beta'', [''red'', ''alpha'']) \<in> set (tag_cache small_browser)" by code_simp
  have "matches ?q (''$_A/beta'', [''red'', ''alpha''])" by code_simp
  then have m: "(\<exists>a b. str_lower (last (str_split CHR ''/'' ''$_A/beta'')) = a @ ?q @ b)
      \<or> (\<exists>tag\<in>set [''red'', ''alpha'']. \<exists>a b. str_lower tag = a @ ?q @ b)"
    by (simp only: matches_iff)
  have l: "length (str_split CHR ''/'' ''$_A/beta'') = 2" by code_simp
  have n: "''beta'' = str_split CHR ''/'' ''$_A/beta'' ! 1" by code_simp
  from e m l n have "\<exists>tags. (''$_A/beta'', tags) \<in> set (tag_cache small_browser)
               \<and> ((\<exists>a b. str_lower (last (str_split CHR ''/'' ''$_A/beta'')) = a @ ?q @ b)
                    \<or> (\<exists>tag\<in>set tags. \<exists>a b. str_lower tag = a @ ?q @ b))
               \<and> length (str_split CHR ''/'' ''$_A/beta'') = 2
               \<and> ''beta'' = str_split CHR ''/'' ''$_A/beta'' ! 1"
    by (intro exI [of _ "[''red'', ''alpha'']"] conjI)
  then have "(''beta'', ''$_A/beta'') \<in> set (topic_list s')"
    using t [rule_format, of "''beta''" "''$_A/beta''"] by (rule iffD2 [rotated])
  with h s' show ?thesis by blast
qed

text \<open>
  Claim C2 as stated fails for a folder without tags: the topic \<open>alpha\<close> of the example
  is a directory at depth 2 whose name contains the query \<open>alpha\<close>, and the search shows
  only the topic \<open>beta\<close>, which has the tag \<open>alpha\<close>.
\<close>

theorem global_search_untagged_topic:
  "TagBrowser_init small_fs [''lib''] = Inr small_browser
   \<and> isdir small_fs [''lib'', ''$_A'', ''alpha'']
   \<and> str_contains ''alpha'' (str_lower ''alpha'')
   \<and> global_search small_fs small_browser ''alpha''
       = Inr (small_browser\<lparr>publisher_list := [], topic_list := [(''beta'', ''$_A/beta'')],
                            chapter_list := [], tag_list := [''alpha'']\<rparr>)"
  by code_simp

lemma str_strip_spaces:
  assumes "\<forall>c\<in>set s. is_space c"
  shows "str_strip s = []"
proof -
  from assms have "dropWhile is_space s = []" by (induction s) auto
  then show ?thesis unfolding str_strip_def by (simp only: rev.simps dropWhile.simps)
qed

lemma load_publishers_root:
  assumes "load_publishers fs t = Inr t'" and "root_directory s = root_directory t"
  shows "\<exists>s'. load_publishers fs s = Inr s' \<and> publisher_list s' = publisher_list t'
           \<and> all_publishers s' = publisher_list t' \<and> root_directory s' = root_directory t'"
  using assms by (auto simp: load_publishers_def Let_def split: sum.splits)

lemma load_all_tags_fields:
  "publisher_list (load_all_tags fs s) = publisher_list s"
  "all_publishers (load_all_tags fs s) = all_publishers s"
  "all_topics (load_all_tags fs s) = all_topics s"
  "tag_list (load_all_tags fs s) = all_tags (load_all_tags fs s)"
  by (simp_all add: load_all_tags_def Let_def)

lemma load_all_tags_root:
  "root_directory s = root_directory t \<Longrightarrow> tag_list (load_all_tags fs s) = tag_list (load_all_tags fs t)"
  by (simp add: load_all_tags_def Let_def)

text \<open>
  Claim C3, amended. With an empty or whitespace-only text, global search loads the
  publishers and the tags again: on the file system on which the window was built, the
  publisher list and the tag list are in full what they were at the start. The topic list
  and the chapter list are emptied, and \<open>all_topics\<close> is left as it is.
\<close>

theorem global_search_empty:
  assumes "TagBrowser_init fs (root_directory s) = Inr s0" and "\<forall>c\<in>set text. is_space c"
  shows "\<exists>s'. global_search fs s text = Inr s'
    \<and> publisher_list s' = publisher_list s0 \<and> publisher_list s' = all_publishers s'
    \<and> tag_list s' = tag_list s0 \<and> tag_list s' = all_tags s'
    \<and> topic_list s' = [] \<and> chapter_list s' = [] \<and> all_topics s' = all_topics s"
proof -
  from assms(1) obtain t where t: "load_publishers fs (new_browser (root_directory s)) = Inr t"
    and s0: "s0 = load_all_tags fs t"
    by (auto simp: TagBrowser_init_def split: sum.splits)
  have "root_directory s = root_directory (new_browser (root_directory s))"
    by (simp add: new_browser_def)
  from load_publishers_root [OF t this] obtain u where u: "load_publishers fs s = Inr u"
    "publisher_list u = publisher_list t" "all_publishers u = publisher_list t"
    "root_directory u = root_directory t" by blast
  from u(1) have a: "all_topics u = all_topics s"
    by (auto simp: load_publishers_def Let_def split: sum.splits)
  let ?s' = "(load_all_tags fs u)\<lparr>topic_list := [], chapter_list := []\<rparr>"
  have "global_search fs s text = Inr ?s'"
    using assms(2) u(1) by (simp add: global_search_def str_strip_spaces str_lower_def reset_all_lists_def)
  moreover have "tag_list ?s' = tag_list s0"
    using load_all_tags_root [OF u(4), of fs] by (simp add: s0)
  ultimately show ?thesis
    using u a by (simp add: s0 load_all_tags_fields)
qed

theorem global_search_empty_witness:
  "TagBrowser_init small_fs
       (root_directory (small_browser\<lparr>publisher_list := [], tag_list := [''red'']\<rparr>))
     = Inr small_browser
   \<and> is_space CHR '' ''
   \<and> (\<exists>s'. global_search small_fs (small_browser\<lparr>publisher_list := [], tag_list := [''red'']\<rparr>) '' ''
              = Inr s'
         \<and> publisher_list s' = [''$_A''] \<and> tag_list s' = [''alpha'', ''red'', ''x'', ''y'']
         \<and> topic_list s' = [] \<and> chapter_list s' = [])"
proof -
  let ?s = "small_browser\<lparr>publisher_list := [], tag_list := [''red'']\<rparr>"
  have h1: "TagBrowser_init small_fs (root_directory ?s) = Inr small_browser" by code_simp
  have h2: "is_space CHR '' ''" by code_simp
  then have h3: "\<forall>c\<in>set '' ''. is_space c" by simp
  have p: "publisher_list small_browser = [''$_A'']"
    "tag_list small_browser = [''alpha'', ''red'', ''x'', ''y'']" by code_simp+
  from global_search_empty [OF h1 h3] obtain s' where
    "global_search small_fs ?s '' '' = Inr s'" "publisher_list s' = publisher_list small_browser"
    "tag_list s' = tag_list small_browser" "topic_list s' = []" "chapter_list s' = []"
    by blast
  with p h1 h2 show ?thesis by (intro conjI exI [of _ s']) simp_all
qed

text \<open>
  Claim C3 as stated fails for the topic list: after the publisher \<open>$_A\<close> was
  selected the topic list shows its two topics, and a global search with the empty text
  leaves the topic list empty.
\<close>

theorem global_search_empty_clears_topics:
  "load_topics small_fs small_browser ''$_A''
     = Inr (small_browser\<lparr>all_topics := [(''alpha'', ''$_A/alpha''), (''beta'', ''$_A/beta'')],
                          topic_list := [(''alpha'', ''$_A/alpha''), (''beta'', ''$_A/beta'')]\<rparr>)
   \<and> global_search small_fs
         (small_browser\<lparr>all_topics := [(''alpha'', ''$_A/alpha''), (''beta'', ''$_A/beta'')],
                        topic_list := [(''alpha'', ''$_A/alpha''), (''beta'', ''$_A/beta'')]\<rparr>) ''''
       = Inr (small_browser\<lparr>all_topics := [(''alpha'', ''$_A/alpha''), (''beta'', ''$_A/beta'')]\<rparr>)
   \<and> topic_list (small_browser\<lparr>all_topics := [(''alpha'', ''$_A/alpha''), (''beta'', ''$_A/beta'')]\<rparr>)
       = []"
  by code_simp


section \<open>Import\<close>

lemma sort_remdups_set: "set xs = set ys \<Longrightarrow> sort (remdups xs) = sort (remdups ys)"
  by (simp add: sorted_list_of_set_sort_remdups [symmetric])

lemma save_tags_content:
  "save_tags fs p tags = Inr fs' \<Longrightarrow>
     lookup fs' p = Some (RegFile (str_join '', '' (sorted_list_of_set (set tags))))"
  by (simp add: save_tags_def lookup_write_text sorted_list_of_set_sort_remdups)

lemma save_tags_succeeds:
  "isdir fs dir \<Longrightarrow> \<not> isdir fs (dir @ [name]) \<Longrightarrow> \<exists>fs'. save_tags fs (dir @ [name]) tags = Inr fs'"
  by (simp add: save_tags_def write_text_succeeds)


lemma import_rows_append:
  "import_rows set_order overwrite fs s pre = (None, fs1, s1) \<Longrightarrow>
     import_rows set_order overwrite fs s (pre @ rest) = import_rows set_order overwrite fs1 s1 rest"
proof (induction pre arbitrary: fs s)
  case Nil
  then show ?case by simp
next
  case (Cons row pre)
  then show ?case by (auto split: sum.splits)
qed

lemma load_all_tags_cache_update:
  "load_all_tags fs (s\<lparr>tag_cache := c\<rparr>) = load_all_tags fs s"
  by (simp add: load_all_tags_def Let_def)

text \<open>
  Claim C4. Let \<open>list(set(xs))\<close> list the elements of \<open>xs\<close> in whatever order, and let
  the last row of a merge import name an existing directory whose \<open>tag.txt\<close> is no
  directory, the rows before it having been imported without error. Then \<open>import_tags\<close>
  ends without error, the tag file holds the sorted, deduplicated union of the tags it held
  before that row and the tags of the row, and the cache has been loaded again. Combining
  the two lists in the other order gives the same set of tags and the same saved file, and
  the import of the row gives the same result whatever the order of \<open>list(set(xs))\<close> is.
\<close>

theorem import_merge_union:
  assumes "\<forall>xs. set (set_order xs) = set xs"
    and "import_rows set_order False fs0 s0 before = (None, fs, s)"
    and "map_of row ''Path'' = Some (Some relative)"
    and "map_of row ''Tags'' = Some (Some field)"
    and "resolve fs (root_directory s) relative = Some full_path"
    and "isdir fs full_path" and "\<not> isdir fs (full_path @ [''tag.txt''])"
  shows "\<exists>fs'. import_tags set_order fs0 s0 (before @ [row]) False
                 = (None, fs', load_all_tags fs' s)
    \<and> lookup fs' (full_path @ [''tag.txt''])
        = Some (RegFile (str_join '', '' (sorted_list_of_set
            (set (load_tags fs (full_path @ [''tag.txt''])) \<union> set (split_tags field)))))
    \<and> set (set_order (load_tags fs (full_path @ [''tag.txt'']) @ split_tags field))
        = set (set_order (split_tags field @ load_tags fs (full_path @ [''tag.txt''])))
    \<and> save_tags fs (full_path @ [''tag.txt''])
          (set_order (load_tags fs (full_path @ [''tag.txt'']) @ split_tags field))
        = save_tags fs (full_path @ [''tag.txt''])
            (set_order (split_tags field @ load_tags fs (full_path @ [''tag.txt''])))
    \<and> (\<forall>other_order. (\<forall>xs. set (other_order xs) = set xs) \<longrightarrow>
          import_tags other_order fs s [row] False = import_tags set_order fs s [row] False)"
proof -
  let ?tag_file = "full_path @ [''tag.txt'']"
  let ?existing = "load_tags fs ?tag_file"
  let ?new_tags = "split_tags field"
  have one: "\<exists>fs'. import_row order False fs s row
        = Inr (fs', s\<lparr>tag_cache := AList.update relative (order (?existing @ ?new_tags))
                                     (tag_cache s)\<rparr>)
      \<and> save_tags fs ?tag_file (order (?existing @ ?new_tags)) = Inr fs'
      \<and> lookup fs' ?tag_file
          = Some (RegFile (str_join '', '' (sorted_list_of_set (set ?existing \<union> set ?new_tags))))"
    if o: "\<forall>xs. set (order xs) = set xs" for order
  proof -
    obtain fs' where fs': "save_tags fs ?tag_file (order (?existing @ ?new_tags)) = Inr fs'"
      using save_tags_succeeds [OF assms(6,7)] by blast
    have u: "set (order (?existing @ ?new_tags)) = set ?existing \<union> set ?new_tags"
      using o by simp
    have "import_row order False fs s row
        = Inr (fs', s\<lparr>tag_cache := AList.update relative (order (?existing @ ?new_tags))
                                     (tag_cache s)\<rparr>)"
      using assms(3-6) fs' by (simp add: import_row_def Let_def)
    moreover have "lookup fs' ?tag_file
        = Some (RegFile (str_join '', '' (sorted_list_of_set (set ?existing \<union> set ?new_tags))))"
      using save_tags_content [OF fs'] by (simp only: u)
    ultimately show ?thesis using fs' by blast
  qed
  have same: "save_tags fs ?tag_file (a (?existing @ ?new_tags))
      = save_tags fs ?tag_file (b (?new_tags @ ?existing))"
    if "\<forall>xs. set (a xs) = set xs" "\<forall>xs. set (b xs) = set xs" for a b
  proof -
    from that have "set (a (?existing @ ?new_tags)) = set (b (?new_tags @ ?existing))" by auto
    then have "sort (remdups (a (?existing @ ?new_tags))) = sort (remdups (b (?new_tags @ ?existing)))"
      by (rule sort_remdups_set)
    then show ?thesis by (simp only: save_tags_def)
  qed
  have same': "save_tags fs ?tag_file (a (?existing @ ?new_tags))
      = save_tags fs ?tag_file (b (?existing @ ?new_tags))"
    if "\<forall>xs. set (a xs) = set xs" "\<forall>xs. set (b xs) = set xs" for a b
  proof -
    from that have "set (a (?existing @ ?new_tags)) = set (b (?existing @ ?new_tags))" by simp
    then have "sort (remdups (a (?existing @ ?new_tags))) = sort (remdups (b (?existing @ ?new_tags)))"
      by (rule sort_remdups_set)
    then show ?thesis by (simp only: save_tags_def)
  qed
  have tags: "import_tags order fs s [row] False = (None, fs', load_all_tags fs' s)"
    if "\<forall>xs. set (order xs) = set xs"
      and "save_tags fs ?tag_file (set_order (?existing @ ?new_tags)) = Inr fs'" for order fs'
  proof -
    from one [OF that(1)] obtain fs'' where
      r: "import_row order False fs s row
        = Inr (fs'', s\<lparr>tag_cache := AList.update relative (order (?existing @ ?new_tags))
                                     (tag_cache s)\<rparr>)"
      and s: "save_tags fs ?tag_file (order (?existing @ ?new_tags)) = Inr fs''"
      by blast
    from same' [OF that(1) assms(1)] s that(2) have "(Inr fs'' :: py_error + fsnode) = Inr fs'"
      by (simp only:)
    then have "fs'' = fs'" by simp
    with r show ?thesis by (simp add: import_tags_def load_all_tags_cache_update)
  qed
  from one [OF assms(1)] obtain fs' where
    r: "import_row set_order False fs s row
        = Inr (fs', s\<lparr>tag_cache := AList.update relative (set_order (?existing @ ?new_tags))
                                     (tag_cache s)\<rparr>)"
    and sv: "save_tags fs ?tag_file (set_order (?existing @ ?new_tags)) = Inr fs'"
    and l: "lookup fs' ?tag_file
          = Some (RegFile (str_join '', '' (sorted_list_of_set (set ?existing \<union> set ?new_tags))))"
    by blast
  from r have "import_rows set_order False fs s [row]
      = (None, fs', s\<lparr>tag_cache := AList.update relative (set_order (?existing @ ?new_tags))
                                     (tag_cache s)\<rparr>)"
    by simp
  with import_rows_append [OF assms(2), of "[row]"]
  have i: "import_tags set_order fs0 s0 (before @ [row]) False = (None, fs', load_all_tags fs' s)"
    by (simp add: import_tags_def load_all_tags_cache_update)
  have c: "set (set_order (?existing @ ?new_tags)) = set (set_order (?new_tags @ ?existing))"
    using assms(1) by auto
  have ind: "\<forall>other_order. (\<forall>xs. set (other_order xs) = set xs) \<longrightarrow>
      import_tags other_order fs s [row] False = import_tags set_order fs s [row] False"
  proof (intro allI impI)
    fix other_order :: "string list \<Rightarrow> string list"
    assume "\<forall>xs. set (other_order xs) = set xs"
    from tags [OF this sv] tags [OF assms(1) sv]
    show "import_tags other_order fs s [row] False = import_tags set_order fs s [row] False"
      by simp
  qed
  show ?thesis
    by (rule exI [of _ fs'], intro conjI, rule i, rule l, rule c,
        rule same [OF assms(1) assms(1)], rule ind)
qed

theorem import_merge_union_witness:
  "(\<forall>xs :: string list. set (remdups xs) = set xs)
   \<and> import_rows remdups False small_fs small_browser [] = (None, small_fs, small_browser)
   \<and> map_of [(''Path'', Some ''$_A''), (''Tags'', Some ''z, x'')] ''Path'' = Some (Some ''$_A'')
   \<and> map_of [(''Path'', Some ''$_A''), (''Tags'', Some ''z, x'')] ''Tags'' = Some (Some ''z, x'')
   \<and> resolve small_fs (root_directory small_browser) ''$_A'' = Some [''lib'', ''$_A'']
   \<and> isdir small_fs [''lib'', ''$_A'']
   \<and> \<not> isdir small_fs ([''lib'', ''$_A''] @ [''tag.txt''])
   \<and> (\<exists>fs'. import_tags remdups small_fs small_browser
                 ([] @ [[(''Path'', Some ''$_A''), (''Tags'', Some ''z, x'')]]) False
               = (None, fs', load_all_tags fs' small_browser)
          \<and> lookup fs' ([''lib'', ''$_A''] @ [''tag.txt'']) = Some (RegFile ''x, y, z''))"
proof -
  let ?row = "[(''Path'', Some ''$_A''), (''Tags'', Some ''z, x'')]"
  have h1: "\<forall>xs :: string list. set (remdups xs) = set xs" by simp
  have h2: "import_rows remdups False small_fs small_browser [] = (None, small_fs, small_browser)"
    by simp
  have h3: "map_of ?row ''Path'' = Some (Some ''$_A'')" by code_simp
  have h4: "map_of ?row ''Tags'' = Some (Some ''z, x'')" by code_simp
  have h5: "resolve small_fs (root_directory small_browser) ''$_A'' = Some [''lib'', ''$_A'']"
    by code_simp
  have h6: "isdir small_fs [''lib'', ''$_A'']" by code_simp
  have h7: "\<not> isdir small_fs ([''lib'', ''$_A''] @ [''tag.txt''])" by code_simp
  have v: "str_join '', '' (sorted_list_of_set
      (set (load_tags small_fs ([''lib'', ''$_A''] @ [''tag.txt''])) \<union> set (split_tags ''z, x'')))
      = ''x, y, z''"
    by code_simp
  from import_merge_union [OF h1 h2 h3 h4 h5 h6 h7]
  obtain fs' where "import_tags remdups small_fs small_browser ([] @ [?row]) False
      = (None, fs', load_all_tags fs' small_browser)"
    "lookup fs' ([''lib'', ''$_A''] @ [''tag.txt''])
        = Some (RegFile (str_join '', '' (sorted_list_of_set
            (set (load_tags small_fs ([''lib'', ''$_A''] @ [''tag.txt'']))
             \<union> set (split_tags ''z, x'')))))"
    by (elim exE conjE) (rule that, assumption, assumption)
  then have "\<exists>fs'. import_tags remdups small_fs small_browser ([] @ [?row]) False
        = (None, fs', load_all_tags fs' small_browser)
      \<and> lookup fs' ([''lib'', ''$_A''] @ [''tag.txt'']) = Some (RegFile ''x, y, z'')"
    unfolding v by (intro exI [of _ fs'] conjI)
  with h1 h2 h3 h4 h5 h6 h7 show ?thesis by (intro conjI)
qed





section \<open>Statistics\<close>

lemma update_fresh: "k \<notin> fst ` set al \<Longrightarrow> AList.update k v al = al @ [(k, v)]"
  by (induction al) auto

lemma assign_fresh:
  "distinct (map fst kvs) \<Longrightarrow> fst ` set acc \<inter> fst ` set kvs = {} \<Longrightarrow>
     foldl assign acc kvs = acc @ kvs"
proof (induction kvs arbitrary: acc)
  case Nil
  then show ?case by simp
next
  case (Cons kv kvs)
  from Cons.prems have f: "fst kv \<notin> fst ` set acc" by auto
  then have a: "assign acc kv = acc @ [kv]" by (simp add: assign_def update_fresh)
  from Cons.prems have "fst ` set (acc @ [kv]) \<inter> fst ` set kvs = {}" by auto
  with Cons.IH [of "acc @ [kv]"] Cons.prems(1) a show ?case by simp
qed

lemma listdir_isdir: "isdir fs p \<Longrightarrow> \<exists>names. listdir fs p = Inr names"
  by (auto simp: isdir_def listdir_def split: option.splits fsnode.splits)

lemma count_topics_fold:
  "\<forall>pub\<in>set pubs. isdir fs (root @ [pub]) \<Longrightarrow>
     count_topics fs root pubs acc = Inr (foldl assign acc (topic_counts fs root pubs))"
proof (induction pubs arbitrary: acc)
  case Nil
  then show ?case by (simp add: topic_counts_def)
next
  case (Cons pub pubs)
  then obtain names where n: "listdir fs (root @ [pub]) = Inr names"
    using listdir_isdir [of fs "root @ [pub]"] by auto
  then have sd: "[t \<leftarrow> names. isdir fs (root @ [pub, t])] = subdirs fs (root @ [pub])"
    by (simp add: subdirs_def)
  from Cons.prems have "\<forall>pub\<in>set pubs. isdir fs (root @ [pub])" by simp
  note ih = Cons.IH [OF this]
  show ?case
    using n by (simp add: Let_def sd ih topic_counts_def assign_def)
qed

lemma count_chapters_fold:
  "count_chapters fs root pub names (tcc, tot)
     = Inr (foldl assign tcc
              (map (\<lambda>topic. (pub @ ''/'' @ topic, length (subdirs fs (root @ [pub, topic]))))
                 [t \<leftarrow> names. isdir fs (root @ [pub, t])]),
            tot + sum_list (map (\<lambda>topic. length (subdirs fs (root @ [pub, topic])))
                 [t \<leftarrow> names. isdir fs (root @ [pub, t])]))"
proof (induction names arbitrary: tcc tot)
  case Nil
  then show ?case by simp
next
  case (Cons topic names)
  show ?case
  proof (cases "isdir fs (root @ [pub, topic])")
    case True
    then obtain cs where cs: "listdir fs (root @ [pub, topic]) = Inr cs"
      using listdir_isdir by blast
    then have sd: "[c \<leftarrow> cs. isdir fs (root @ [pub, topic, c])] = subdirs fs (root @ [pub, topic])"
      by (simp add: subdirs_def)
    show ?thesis
      using True cs by (simp add: Let_def sd Cons assign_def)
  next
    case False
    with Cons show ?thesis by simp
  qed
qed

lemma count_chapters_pub:
  assumes "isdir fs (root @ [pub])" and "listdir fs (root @ [pub]) = Inr names"
  shows "count_chapters fs root pub names (tcc, tot)
     = Inr (foldl assign tcc (chapter_counts fs root pub),
            tot + sum_list (map snd (chapter_counts fs root pub)))"
proof -
  have "[t \<leftarrow> names. isdir fs (root @ [pub, t])] = subdirs fs (root @ [pub])"
    using assms(2) by (simp add: subdirs_def)
  then show ?thesis
    by (simp add: count_chapters_fold chapter_counts_def comp_def)
qed

lemma count_all_chapters_fold:
  "\<forall>e\<in>set ptc. isdir fs (root @ [fst e]) \<Longrightarrow>
     count_all_chapters fs root ptc (tcc, tot)
       = Inr (foldl assign tcc (concat (map (\<lambda>e. chapter_counts fs root (fst e)) ptc)),
              tot + sum_list (map snd (concat (map (\<lambda>e. chapter_counts fs root (fst e)) ptc))))"
proof (induction ptc arbitrary: tcc tot)
  case Nil
  then show ?case by simp
next
  case (Cons e ptc)
  obtain pub topic_count where e: "e = (pub, topic_count)" by (cases e)
  from Cons.prems e have d: "isdir fs (root @ [pub])" by simp
  then obtain names where n: "listdir fs (root @ [pub]) = Inr names"
    using listdir_isdir by blast
  from Cons.prems have "\<forall>e\<in>set ptc. isdir fs (root @ [fst e])" by simp
  note ih = Cons.IH [OF this]
  show ?case
    unfolding e by (simp add: n count_chapters_pub [OF d n] ih)
qed

lemma map_of_foldl_update:
  "map_of (foldl (\<lambda>d k. AList.update k (f k) d) acc ks) k
     = (if k \<in> set ks then Some (f k) else map_of acc k)"
  by (induction ks arbitrary: acc) (auto simp: update_conv')

lemma tag_usage_alt: "tag_usage cache tag = length [e \<leftarrow> cache. tag \<in> set (snd e)]"
  by (simp add: tag_usage_def filter_map comp_def)

lemma wf_lookup: "wf_fs n \<Longrightarrow> lookup n p = Some m \<Longrightarrow> wf_fs m"
proof (induction n p rule: lookup.induct)
  case (1 n)
  then show ?case by simp
next
  case (2 uu c cs)
  then show ?case by simp
next
  case (3 es c cs)
  from "3.prems"(2) obtain m' where m': "map_of es c = Some m'" "lookup m' cs = Some m"
    by (auto split: option.splits)
  from m'(1) have "(c, m') \<in> set es" by (rule map_of_SomeD)
  with "3.prems"(1) have "wf_fs m'" by (auto simp: list_all_iff)
  with "3.IH" m' show ?case by simp
qed

lemma subdirs_wf:
  assumes "wf_fs n"
  shows "distinct (subdirs n p)" and "\<forall>c\<in>set (subdirs n p). valid_name c \<and> isdir n (p @ [c])"
proof -
  show "\<forall>c\<in>set (subdirs n p). valid_name c \<and> isdir n (p @ [c])"
  proof
    fix c assume c: "c \<in> set (subdirs n p)"
    then obtain es where es: "lookup n p = Some (Directory es)" "c \<in> fst ` set es"
      "isdir n (p @ [c])"
      by (auto simp: subdirs_def listdir_def split: option.splits fsnode.splits)
    from wf_lookup [OF assms es(1)] es(2) have "valid_name c"
      by (auto simp: list_all_iff)
    with es(3) show "valid_name c \<and> isdir n (p @ [c])" by simp
  qed
  show "distinct (subdirs n p)"
  proof (cases "lookup n p")
    case None
    then show ?thesis by (simp add: subdirs_def listdir_def)
  next
    case (Some m)
    show ?thesis
    proof (cases m)
      case (RegFile x)
      with Some show ?thesis by (simp add: subdirs_def listdir_def)
    next
      case (Directory es)
      with wf_lookup [OF assms Some] have "distinct (map fst es)" by simp
      with Some Directory show ?thesis by (simp add: subdirs_def listdir_def)
    qed
  qed
qed

lemma subdirs_below:
  assumes "lookup fs root = Some n"
  shows "subdirs fs (root @ q) = subdirs n q"
proof -
  have "isdir fs ((root @ q) @ [c]) = isdir n (q @ [c])" for c
    using isdir_below [OF assms, of "q @ [c]"] by simp
  moreover have "listdir fs (root @ q) = listdir n q"
    using assms by (simp add: listdir_def lookup_append)
  ultimately show ?thesis by (simp add: subdirs_def split: sum.splits)
qed

lemma key_inj:
  assumes "CHR ''/'' \<notin> set a" and "CHR ''/'' \<notin> set a'" and "a @ ''/'' @ b = a' @ ''/'' @ b'"
  shows "a = a' \<and> b = b'"
proof -
  from assms(3) have "str_split CHR ''/'' (a @ CHR ''/'' # b) = str_split CHR ''/'' (a' @ CHR ''/'' # b')"
    by simp
  with assms(1,2) have "a = a'" by (simp add: str_split_append)
  with assms(3) show ?thesis by simp
qed

lemma distinct_chapter_keys:
  assumes "distinct pubs" and "\<forall>pub\<in>set pubs. CHR ''/'' \<notin> set pub"
    and "\<forall>pub\<in>set pubs. distinct (subdirs fs (root @ [pub]))"
  shows "distinct (map fst (concat (map (chapter_counts fs root) pubs)))"
  using assms
proof (induction pubs)
  case Nil
  then show ?case by simp
next
  case (Cons pub pubs)
  have k: "map fst (chapter_counts fs root q) = map (\<lambda>t. q @ ''/'' @ t) (subdirs fs (root @ [q]))"
    for q
    by (simp add: chapter_counts_def comp_def)
  have "distinct (map fst (chapter_counts fs root pub))"
    unfolding k using Cons.prems(3) by (simp add: distinct_map inj_on_def)
  moreover have "distinct (map fst (concat (map (chapter_counts fs root) pubs)))"
    using Cons by simp
  moreover have "set (map fst (chapter_counts fs root pub))
      \<inter> set (map fst (concat (map (chapter_counts fs root) pubs))) = {}"
  proof (rule ccontr)
    assume "\<not> ?thesis"
    then obtain x where x: "x \<in> set (map fst (chapter_counts fs root pub))"
      "x \<in> set (map fst (concat (map (chapter_counts fs root) pubs)))" by blast
    from x(1) obtain t where t: "x = pub @ ''/'' @ t" unfolding k by auto
    from x(2) obtain q where q: "q \<in> set pubs" "x \<in> set (map fst (chapter_counts fs root q))"
      by auto
    from q(2) obtain t' where t': "x = q @ ''/'' @ t'" unfolding k by auto
    from Cons.prems(2) q(1) have "CHR ''/'' \<notin> set pub" "CHR ''/'' \<notin> set q" by simp_all
    from t t' have "pub @ ''/'' @ t = q @ ''/'' @ t'" by simp
    from key_inj [OF \<open>CHR ''/'' \<notin> set pub\<close> \<open>CHR ''/'' \<notin> set q\<close> this] have "pub = q" by simp
    with q(1) Cons.prems(1) show False by simp
  qed
  ultimately show ?case by simp
qed

lemma sum_list_const: "\<forall>x\<in>set xs. f x = (c::nat) \<Longrightarrow> sum_list (map f xs) = c * length xs"
  by (induction xs) auto

lemma sum_list_map_concat:
  "sum_list (map f (concat xss)) = sum_list (map (\<lambda>xs. sum_list (map f xs)) xss)"
  for f :: "'a \<Rightarrow> nat"
  by (induction xss) auto

lemma load_publishers_folders:
  "load_publishers fs s = Inr s' \<Longrightarrow> all_publishers s' = publisher_folders fs (root_directory s)"
  by (auto simp: load_publishers_def publisher_folders_def subdirs_def Let_def
      split: sum.splits)

text \<open>
  Claim C7. On a well-formed library whose publishers the window has loaded,
  \<open>compute_statistics\<close> returns: as total publishers the number of recognized publisher
  folders; for every publisher the number of its topic folders, and as total topics their
  sum; for every topic the number of its chapter folders, and as total chapters their sum;
  the number of tags; and for every tag the number of cache entries whose tags contain it.
  With two publishers of three topics of two chapters each, the totals are 2, 6 and 12.
\<close>

theorem compute_statistics_counts:
  assumes "lookup fs (root_directory s) = Some n" and "wf_fs n"
    and "all_publishers s = publisher_folders fs (root_directory s)"
  shows "\<exists>st. compute_statistics fs s = Inr st
    \<and> Total_publishers st = length (publisher_folders fs (root_directory s))
    \<and> Topics_per_publisher st = topic_counts fs (root_directory s) (all_publishers s)
    \<and> Total_topics st = sum_list (map snd (Topics_per_publisher st))
    \<and> Chapters_per_topic st
        = concat (map (chapter_counts fs (root_directory s)) (all_publishers s))
    \<and> Total_chapters st = sum_list (map snd (Chapters_per_topic st))
    \<and> Total_unique_tags st = length (all_tags s)
    \<and> (\<forall>tag\<in>set (all_tags s).
          map_of (Tag_usage_count st) tag = Some (length [e \<leftarrow> tag_cache s. tag \<in> set (snd e)]))
    \<and> (length (all_publishers s) = 2
        \<and> (\<forall>pub\<in>set (all_publishers s).
              length (subdirs fs (root_directory s @ [pub])) = 3
              \<and> (\<forall>topic\<in>set (subdirs fs (root_directory s @ [pub])).
                    length (subdirs fs (root_directory s @ [pub, topic])) = 2))
        \<longrightarrow> Total_publishers st = 2 \<and> Total_topics st = 6 \<and> Total_chapters st = 12)"
proof -
  let ?root = "root_directory s"
  let ?pubs = "all_publishers s"
  let ?ptc = "topic_counts fs ?root ?pubs"
  let ?tcc = "concat (map (chapter_counts fs ?root) ?pubs)"
  let ?usage = "foldl (\<lambda>d tag. AList.update tag (tag_usage (tag_cache s) tag) d) [] (all_tags s)"
  have sub: "subdirs fs (?root @ q) = subdirs n q" for q
    using assms(1) by (rule subdirs_below)
  have root_dirs: "distinct (subdirs fs ?root)"
    "\<forall>c\<in>set (subdirs fs ?root). valid_name c \<and> isdir n ([] @ [c])"
    using subdirs_wf [OF assms(2), of "[]"] sub [of "[]"] by simp_all
  have pubs_sub: "set ?pubs \<subseteq> set (subdirs fs ?root)"
    by (auto simp: assms(3) publisher_folders_def)
  have dp: "distinct ?pubs"
    using root_dirs(1) by (simp add: assms(3) publisher_folders_def)
  have ip: "\<forall>pub\<in>set ?pubs. isdir fs (?root @ [pub])"
    using pubs_sub root_dirs(2) isdir_below [OF assms(1)] by auto
  have vp: "\<forall>pub\<in>set ?pubs. CHR ''/'' \<notin> set pub"
    using pubs_sub root_dirs(2) by (auto simp: valid_name_def)
  have dt: "\<forall>pub\<in>set ?pubs. distinct (subdirs fs (?root @ [pub]))"
    using subdirs_wf(1) [OF assms(2)] by (simp add: sub)
  have fp: "map fst ?ptc = ?pubs"
    by (simp add: topic_counts_def comp_def)
  have "foldl assign [] ?ptc = [] @ ?ptc"
    by (rule assign_fresh) (simp_all add: fp dp)
  with count_topics_fold [OF ip, of "[]"] have ct: "count_topics fs ?root ?pubs [] = Inr ?ptc"
    by simp
  have ip': "\<forall>e\<in>set ?ptc. isdir fs (?root @ [fst e])"
    using ip by (simp add: topic_counts_def)
  have tcc: "concat (map (\<lambda>e. chapter_counts fs ?root (fst e)) ?ptc) = ?tcc"
    by (simp add: topic_counts_def comp_def)
  have "foldl assign [] ?tcc = [] @ ?tcc"
    by (rule assign_fresh) (simp_all add: distinct_chapter_keys [OF dp vp dt])
  with count_all_chapters_fold [OF ip', of "[]" 0]
  have cc: "count_all_chapters fs ?root ?ptc ([], 0) = Inr (?tcc, sum_list (map snd ?tcc))"
    by (simp add: tcc)
  define st where "st = \<lparr>Total_publishers = length ?pubs,
      Total_topics = sum_list (map snd ?ptc), Total_chapters = sum_list (map snd ?tcc),
      Total_unique_tags = length (all_tags s), Topics_per_publisher = ?ptc,
      Chapters_per_topic = ?tcc, Tag_usage_count = ?usage\<rparr>"
  have c: "compute_statistics fs s = Inr st"
    by (simp add: compute_statistics_def ct cc st_def)
  have u: "\<forall>tag\<in>set (all_tags s).
      map_of (Tag_usage_count st) tag = Some (length [e \<leftarrow> tag_cache s. tag \<in> set (snd e)])"
    by (simp add: st_def map_of_foldl_update tag_usage_alt)
  have ex: "Total_publishers st = 2 \<and> Total_topics st = 6 \<and> Total_chapters st = 12"
    if l: "length ?pubs = 2"
      and t: "\<forall>pub\<in>set ?pubs. length (subdirs fs (?root @ [pub])) = 3
              \<and> (\<forall>topic\<in>set (subdirs fs (?root @ [pub])).
                    length (subdirs fs (?root @ [pub, topic])) = 2)"
  proof -
    have "sum_list (map snd ?ptc) = 3 * length ?pubs"
      using t by (simp add: topic_counts_def comp_def sum_list_const)
    moreover have "sum_list (map snd (chapter_counts fs ?root pub)) = 6" if "pub \<in> set ?pubs" for pub
    proof -
      from t that have "sum_list (map (\<lambda>topic. length (subdirs fs (?root @ [pub, topic])))
          (subdirs fs (?root @ [pub]))) = 2 * length (subdirs fs (?root @ [pub]))"
        by (intro sum_list_const) simp
      with t that show ?thesis by (simp add: chapter_counts_def comp_def)
    qed
    then have "sum_list (map (\<lambda>pub. sum_list (map snd (chapter_counts fs ?root pub))) ?pubs)
        = 6 * length ?pubs"
      by (intro sum_list_const) simp
    then have "sum_list (map snd ?tcc) = 6 * length ?pubs"
      by (simp add: sum_list_map_concat comp_def)
    ultimately show ?thesis using l by (simp add: st_def)
  qed
  show ?thesis
    using c u ex by (intro exI [of _ st]) (simp add: st_def assms(3))
qed

theorem compute_statistics_counts_witness:
  "TagBrowser_init stats_fs [''lib''] = Inr stats_browser
   \<and> lookup stats_fs (root_directory stats_browser) = Some stats_lib
   \<and> wf_fs stats_lib
   \<and> all_publishers stats_browser = publisher_folders stats_fs (root_directory stats_browser)
   \<and> (\<exists>st. compute_statistics stats_fs stats_browser = Inr st
         \<and> Total_publishers st = 2 \<and> Total_topics st = 6 \<and> Total_chapters st = 12
         \<and> ''x'' \<in> set (all_tags stats_browser)
         \<and> map_of (Tag_usage_count st) ''x'' = Some 7)"
proof -
  let ?s = stats_browser
  have h0: "TagBrowser_init stats_fs [''lib''] = Inr ?s" by code_simp
  have h1: "lookup stats_fs (root_directory ?s) = Some stats_lib" by code_simp
  have h2: "wf_fs stats_lib" by code_simp
  have h3: "all_publishers ?s = publisher_folders stats_fs (root_directory ?s)" by code_simp
  have e1: "length (all_publishers ?s) = 2
      \<and> (\<forall>pub\<in>set (all_publishers ?s).
            length (subdirs stats_fs (root_directory ?s @ [pub])) = 3
            \<and> (\<forall>topic\<in>set (subdirs stats_fs (root_directory ?s @ [pub])).
                  length (subdirs stats_fs (root_directory ?s @ [pub, topic])) = 2))"
    by code_simp
  have e2: "''x'' \<in> set (all_tags ?s)" by code_simp
  have e3: "length [e \<leftarrow> tag_cache ?s. ''x'' \<in> set (snd e)] = 7" by code_simp
  from compute_statistics_counts [OF h1 h2 h3]
  obtain st where st: "compute_statistics stats_fs ?s = Inr st"
    and u: "\<forall>tag\<in>set (all_tags ?s).
          map_of (Tag_usage_count st) tag = Some (length [e \<leftarrow> tag_cache ?s. tag \<in> set (snd e)])"
    and ex: "length (all_publishers ?s) = 2
        \<and> (\<forall>pub\<in>set (all_publishers ?s).
              length (subdirs stats_fs (root_directory ?s @ [pub])) = 3
              \<and> (\<forall>topic\<in>set (subdirs stats_fs (root_directory ?s @ [pub])).
                    length (subdirs stats_fs (root_directory ?s @ [pub, topic])) = 2))
        \<longrightarrow> Total_publishers st = 2 \<and> Total_topics st = 6 \<and> Total_chapters st = 12"
    by (elim exE conjE) (rule that, assumption, assumption, assumption)
  from ex e1 have t: "Total_publishers st = 2 \<and> Total_topics st = 6 \<and> Total_chapters st = 12"
    by (rule mp)
  from u e2 have "map_of (Tag_usage_count st) ''x''
      = Some (length [e \<leftarrow> tag_cache ?s. ''x'' \<in> set (snd e)])"
    by (rule bspec)
  then have "map_of (Tag_usage_count st) ''x'' = Some 7" by (simp only: e3)
  with st t e2 have "\<exists>st. compute_statistics stats_fs ?s = Inr st
         \<and> Total_publishers st = 2 \<and> Total_topics st = 6 \<and> Total_chapters st = 12
         \<and> ''x'' \<in> set (all_tags ?s)
         \<and> map_of (Tag_usage_count st) ''x'' = Some 7"
    by (intro exI [of _ st]) simp
  with h0 h1 h2 h3 show ?thesis by (intro conjI)
qed

end
